theory Spec2Isabelle
  imports Main "HOL-Library.AList"
begin

section \<open>Hot reloading of modules: the data model\<close>

text \<open>
  The program keeps four process-wide structures: the configuration \<open>_cfg\<close>, the
  dependency graph \<open>_graph\<close>, the registry \<open>_registry\<close> and the file watcher
  \<open>_watcher\<close>; it reads and evicts the loader's \<open>require.cache\<close>. They are the
  fields of \<open>hot_state\<close>, passed explicitly.

  JavaScript values are modelled as far as the program inspects them: \<open>typeof\<close>, the own
  properties of a plain object, and the identity of a function object.
\<close>

datatype jsval =
    JUndefined
  | JNull
  | JBool bool
  | JNum int
  | JStr string
  | JFunction nat
  | JObject "(string \<times> jsval) list"

fun typeof :: "jsval \<Rightarrow> string" where
  "typeof JUndefined = ''undefined''"
| "typeof JNull = ''object''"
| "typeof (JBool b) = ''boolean''"
| "typeof (JNum n) = ''number''"
| "typeof (JStr s) = ''string''"
| "typeof (JFunction f) = ''function''"
| "typeof (JObject ps) = ''object''"

type_synonym stash = "(string \<times> jsval) list"

text \<open>
  \<open>interface Options\<close>: the three settings of \<open>_cfg\<close>. A regular expression of
  \<open>exclude\<close> is kept as its source text; what it matches is decided by \<open>isEligible\<close>,
  a function of \<open>./utils\<close> that the operations below take as a parameter.
\<close>

record Options =
  silent :: bool
  patchExports_opt :: bool
  exclude :: "string list"

text \<open>The argument of \<open>configure\<close>: every setting is optional.\<close>

record Options_arg =
  arg_silent :: "bool option"
  arg_patchExports :: "bool option"
  arg_exclude :: "string list option"

text \<open>
  A loader module record (\<open>NodeModule\<close>). \<open>mod_id\<close> stands for the identity of the
  object (what \<open>!==\<close> compares). \<open>hot\<close> is the control object attached by
  \<open>injectFile\<close>: its four closures capture one registry entry, so the control object
  is given by the key of that entry.
\<close>

record NodeModule =
  mod_id :: nat
  mod_filename :: string
  exports :: jsval
  hot :: "string option"

text \<open>
  \<open>class RegistryEntry\<close>. \<open>owner_mod\<close> is the field \<open>mod\<close>, a reference to a module
  object. \<open>store\<close> is \<open>None\<close> for the default \<open>() => { }\<close> and \<open>Some stasher\<close>
  once \<open>hot.store(stasher)\<close> has replaced it; a stasher fills the fresh stash it is
  handed. \<open>patchees\<close> maps a constructor name to the constructors (function objects,
  by identity) recorded under that name.
\<close>

record RegistryEntry =
  owner_mod :: nat
  filename :: string
  accepted :: bool
  stash :: "stash option"
  patchees :: "(string \<times> nat list) list"
  store :: "(stash \<Rightarrow> stash) option"

type_synonym Graph = "(string \<times> string) list"

record hot_state =
  cfg :: Options
  graph :: Graph
  registry :: "(string \<times> RegistryEntry) list"
  cache :: "string \<Rightarrow> NodeModule option"
  watched :: "string set"
  mainModule :: "NodeModule option"

text \<open>
  The state the program starts in: \<open>_cfg\<close> as initialised, an empty graph, registry and
  watcher. The module cache and \<open>process.mainModule\<close> belong to the loader. The default
  \<open>exclude\<close> pattern (a path segment \<open>node_modules\<close>) is written by that name.
\<close>

definition default_cfg :: Options where
  "default_cfg = \<lparr>silent = False, patchExports_opt = False, exclude = [''node_modules'']\<rparr>"

definition initial_state :: "NodeModule option \<Rightarrow> hot_state" where
  "initial_state main =
     \<lparr>cfg = default_cfg, graph = [], registry = [], cache = Map.empty, watched = {},
      mainModule = main\<rparr>"

section \<open>The dependency graph\<close>

text \<open>
  Modelled from the spec: the class \<open>Graph\<close> of \<open>./graph\<close> is imported by the
  program and is not among its source files. Section 4.1 of the specification gives its
  three operations. An edge is a pair (dependent, dependency); the graph is the list of
  its edges in insertion order, so that \<open>getDependantsOf\<close> is deterministic.

  \<open>addDependency\<close>: inserts the directed edge; no-op if present; no cycle check.
\<close>

definition addDependency :: "string \<Rightarrow> string \<Rightarrow> Graph \<Rightarrow> Graph" where
  "addDependency dependent dependency g =
     (if (dependent, dependency) \<in> set g then g else g @ [(dependent, dependency)])"

text \<open>
  Modelled from the spec: \<open>getDependantsOf\<close> of the absent class \<open>Graph\<close> returns
  every dependent with a live edge to the dependency.
\<close>

definition getDependantsOf :: "Graph \<Rightarrow> string \<Rightarrow> string list" where
  "getDependantsOf g dependency = map fst (filter (\<lambda>e. snd e = dependency) g)"

text \<open>
  Modelled from the spec: \<open>removeDependencies\<close> of the absent class \<open>Graph\<close>
  deletes every outgoing edge of the dependent and returns the dependencies that no
  other dependent points at afterwards.
\<close>

definition removeDependencies :: "Graph \<Rightarrow> string \<Rightarrow> Graph \<times> string list" where
  "removeDependencies g dependent =
     (let kept = filter (\<lambda>e. fst e \<noteq> dependent) g;
          gone = remdups (map snd (filter (\<lambda>e. fst e = dependent) g))
      in (kept, filter (\<lambda>d. getDependantsOf kept d = []) gone))"

section \<open>The require hook\<close>

text \<open>
  \<open>Module.prototype.require\<close>. The hook first calls the loader's own require and
  \<open>Module._resolveFilename\<close>, both external: their results \<open>xports\<close> and
  \<open>modulePath\<close> are arguments here, and the state is the one the loader's require
  left behind. The hook returns \<open>xports\<close> on every path.
\<close>

definition Module_require ::
  "(Options \<Rightarrow> string \<Rightarrow> bool) \<Rightarrow> NodeModule \<Rightarrow> string \<Rightarrow> jsval \<Rightarrow> hot_state
     \<Rightarrow> jsval \<times> hot_state" where
  "Module_require isEligible caller modulePath xports s =
     (if \<not> isEligible (cfg s) modulePath then (xports, s)
      else case cache s modulePath of
        None \<Rightarrow> (xports, s)
      | Some dependency \<Rightarrow>
          let s1 = (if map_option mod_id (mainModule s) \<noteq> Some (mod_id caller)
                    then s\<lparr>graph := addDependency (mod_filename caller)
                                     (mod_filename dependency) (graph s)\<rparr>
                    else s)
          in (xports, s1\<lparr>watched := insert (mod_filename dependency) (watched s1)\<rparr>))"

section \<open>The reload propagation engine\<close>

text \<open>
  One run of \<open>reload\<close> for one change event: the process state, the two sets the
  recursion shares (\<open>acceptees\<close>, a set of file names, and \<open>reloaded\<close>, a set of
  registry entries), and \<open>steps\<close>, the log of what the run did to each entry, in
  order. \<open>registerFile\<close> is the only place that creates an entry, it stores the entry
  under the entry's own file name and nothing assigns that field afterwards; so an entry
  in \<open>reloaded\<close> is identified by its file name. A JavaScript \<open>Set\<close> keeps
  insertion order and ignores a second \<open>add\<close> of the same element.
\<close>

datatype reload_step = StoreInvoked string | CacheEvicted string | EdgesRemoved string

record reload_run =
  world :: hot_state
  acceptees :: "string list"
  reloaded :: "string list"
  steps :: "reload_step list"

definition set_add :: "'a \<Rightarrow> 'a list \<Rightarrow> 'a list" where
  "set_add x xs = (if x \<in> set xs then xs else xs @ [x])"

text \<open>
  \<open>entry.store()\<close>: the default does nothing; the wrapper installed by \<open>hot.store\<close>
  sets \<open>entry.stash = {}\<close> and lets the stasher fill it.
\<close>

definition run_store :: "RegistryEntry \<Rightarrow> RegistryEntry" where
  "run_store entry =
     (case store entry of
        None \<Rightarrow> entry
      | Some stasher \<Rightarrow> entry\<lparr>stash := Some (stasher [])\<rparr>)"

text \<open>
  The straight-line part of \<open>reload\<close>, up to the computation of the dependants: mark
  the entry reloaded, run its store callback, delete it from \<open>require.cache\<close>, remove
  its outgoing edges and unwatch every dependency the graph reports as removed.
\<close>

definition reload_visit :: "RegistryEntry \<Rightarrow> reload_run \<Rightarrow> reload_run" where
  "reload_visit entry r =
     (let w = world r;
          f = filename entry;
          (g, removed) = removeDependencies (graph w) f
      in r\<lparr>world := w\<lparr>registry := AList.update f (run_store entry) (registry w),
                       cache := (cache w)(f := None),
                       graph := g,
                       watched := watched w - set removed\<rparr>,
            reloaded := set_add f (reloaded r),
            steps := steps r @ [StoreInvoked f, CacheEvicted f, EdgesRemoved f]\<rparr>)"

text \<open>
  \<open>reload\<close> and its \<open>for\<close> loop over the dependants. The recursion is bounded by the
  visited set, not by the structure of an argument, so the model carries fuel: \<open>None\<close>
  means the fuel ran out. That enough fuel always exists is a theorem below.
\<close>

fun reload :: "nat \<Rightarrow> RegistryEntry \<Rightarrow> reload_run \<Rightarrow> reload_run option"
and reload_dependants :: "nat \<Rightarrow> string list \<Rightarrow> reload_run \<Rightarrow> reload_run option" where
  "reload 0 entry r = None"
| "reload (Suc n) entry r =
     (let r1 = reload_visit entry r;
          dependants = getDependantsOf (graph (world r1)) (filename entry)
      in if accepted entry \<or> dependants = []
         then Some (r1\<lparr>acceptees := set_add (filename entry) (acceptees r1)\<rparr>)
         else reload_dependants n dependants r1)"
| "reload_dependants n [] r = Some r"
| "reload_dependants n (dependant # rest) r =
     (case map_of (registry (world r)) dependant of
        None \<Rightarrow> reload_dependants n rest r
      | Some dependantEntry \<Rightarrow>
          if filename dependantEntry \<in> set (reloaded r) then reload_dependants n rest r
          else (case reload n dependantEntry r of
                  None \<Rightarrow> None
                | Some r' \<Rightarrow> reload_dependants n rest r'))"

text \<open>The sets a top-level call \<open>reload(entry)\<close> starts from: both empty.\<close>

definition fresh_run :: "hot_state \<Rightarrow> reload_run" where
  "fresh_run s = \<lparr>world = s, acceptees = [], reloaded = [], steps = []\<rparr>"

text \<open>
  The handler of the watcher's \<open>change\<close> event. The re-require of an acceptee goes
  through the loader's own require, which is external: the handler's result is the
  state after \<open>reload\<close> and the list of the calls it issues, each a pair of the
  calling module and the path, in the order of the acceptee set.
\<close>

definition on_change :: "nat \<Rightarrow> string \<Rightarrow> hot_state \<Rightarrow> (hot_state \<times> (nat \<times> string) list) option" where
  "on_change n file s =
     (case map_of (registry s) file of
        None \<Rightarrow> Some (s, [])
      | Some entry \<Rightarrow>
          (case reload n entry (fresh_run s) of
             None \<Rightarrow> None
           | Some r \<Rightarrow> Some (world r, map (\<lambda>acceptee. (owner_mod entry, acceptee)) (acceptees r))))"

section \<open>The registry and the control object\<close>

definition new_entry :: "nat \<Rightarrow> string \<Rightarrow> RegistryEntry" where
  "new_entry m f =
     \<lparr>owner_mod = m, filename = f, accepted = False, stash = None, patchees = [], store = None\<rparr>"

definition registerFile :: "NodeModule \<Rightarrow> string \<Rightarrow> hot_state \<Rightarrow> RegistryEntry \<times> hot_state" where
  "registerFile m f s =
     (case map_of (registry s) f of
        Some entry \<Rightarrow> (entry, s)
      | None \<Rightarrow>
          let entry = new_entry (mod_id m) f
          in (entry, s\<lparr>registry := registry s @ [(f, entry)]\<rparr>))"

text \<open>
  \<open>injectFile\<close>: skipped when the module already carries a control object; otherwise
  the entry is registered (or found) and the control object bound to it is attached.
\<close>

definition injectFile :: "NodeModule \<Rightarrow> string \<Rightarrow> hot_state \<Rightarrow> NodeModule \<times> hot_state" where
  "injectFile m f s =
     (case hot m of
        Some h \<Rightarrow> (m, s)
      | None \<Rightarrow>
          let (entry, s') = registerFile m f s
          in (m\<lparr>hot := Some (filename entry)\<rparr>, s'))"

text \<open>The closures of the control object, as functions of the entry they captured.\<close>

definition hot_accept :: "RegistryEntry \<Rightarrow> RegistryEntry" where
  "hot_accept entry = entry\<lparr>accepted := True\<rparr>"

definition hot_store :: "(stash \<Rightarrow> stash) \<Rightarrow> RegistryEntry \<Rightarrow> RegistryEntry" where
  "hot_store stasher entry = entry\<lparr>store := Some stasher\<rparr>"

text \<open>
  \<open>hot.restore(stasher)\<close>. The callback is user code: it is modelled by its effect
  \<open>stasher stash u\<close> on the state \<open>u\<close> of whoever supplied it, so that "the callback
  was not invoked" reads "\<open>u\<close> is unchanged". A callback that throws, or that calls
  the control object again while it runs, is outside this model; so is a store callback
  that does more than fill the stash.
\<close>

definition hot_restore :: "(stash \<Rightarrow> 'u \<Rightarrow> 'u) \<Rightarrow> 'u \<times> RegistryEntry \<Rightarrow> 'u \<times> RegistryEntry" where
  "hot_restore stasher ue =
     (case stash (snd ue) of
        None \<Rightarrow> ue
      | Some st \<Rightarrow> (stasher st (fst ue), (snd ue)\<lparr>stash := None\<rparr>))"

definition configure :: "Options_arg \<Rightarrow> hot_state \<Rightarrow> hot_state" where
  "configure opts s =
     s\<lparr>cfg := \<lparr>silent = (case arg_silent opts of None \<Rightarrow> silent (cfg s) | Some b \<Rightarrow> b),
               patchExports_opt =
                 (case arg_patchExports opts of None \<Rightarrow> patchExports_opt (cfg s) | Some b \<Rightarrow> b),
               exclude = (case arg_exclude opts of None \<Rightarrow> exclude (cfg s) | Some e \<Rightarrow> e)\<rparr>\<rparr>"

section \<open>The class identity patcher\<close>

text \<open>
  A constructor is a function object. Its own properties are \<open>name\<close> and \<open>length\<close>,
  which are read-only on every function, \<open>prototype\<close>, a reference to its prototype
  object, and the static fields the program gave it. The \<open>prototype\<close> property is
  read-only on a class and writable on a constructor written as a function (which is
  also what a class compiled for an older language level is); \<open>proto_writable\<close> says
  which. A prototype object has its own members and a delegation target
  (\<open>Object.getPrototypeOf\<close>, an object or \<open>null\<close>). Both kinds of object are
  mutated in place and may be shared (a constructor can stand twice in a history, or be
  both \<open>old\<close> and \<open>current\<close>), so they live in a heap indexed by identity.
\<close>

type_synonym props = "string \<Rightarrow> jsval option"

record Constructor =
  ctor_name :: string
  statics :: props
  prototype :: nat
  proto_writable :: bool

record ProtoObject =
  members :: props
  delegate :: "nat option"

record js_heap =
  ctors :: "nat \<Rightarrow> Constructor"
  protos :: "nat \<Rightarrow> ProtoObject"

text \<open>
  Modelled from the spec: \<open>assign(target, source, filter)\<close> of \<open>./utils\<close> is imported
  by the program and is not among its source files. Section 4.4 of the specification
  describes its three uses as "copy every own field [of the source, whose type passes
  the filter] onto [the target]"; the filter receives the \<open>typeof\<close> of the field's
  value.
\<close>

definition assign :: "props \<Rightarrow> props \<Rightarrow> (string \<Rightarrow> bool) \<Rightarrow> props" where
  "assign target source flt =
     (\<lambda>key. case source key of
              None \<Rightarrow> target key
            | Some v \<Rightarrow> if flt (typeof v) then Some v else target key)"

text \<open>
  \<open>assign(target, source, filter)\<close> as \<open>hot.patch\<close> calls it on two constructors:
  it is handed the function objects themselves, so besides the static fields it meets
  their other own properties. \<open>name\<close> and \<open>length\<close> are read-only and stay as they
  are. \<open>prototype\<close> holds an object (its \<open>typeof\<close> is \<open>object\<close>): where it is a
  writable property of both constructors and the filter admits an object, the target's
  \<open>prototype\<close> becomes the source's; an assignment to a read-only property changes
  nothing.
\<close>

definition assign_constructor :: "nat \<Rightarrow> nat \<Rightarrow> (string \<Rightarrow> bool) \<Rightarrow> js_heap \<Rightarrow> js_heap" where
  "assign_constructor target source flt h =
     (let t = ctors h target;
          s = ctors h source
      in h\<lparr>ctors := (ctors h)(target := t
           \<lparr>statics := assign (statics t) (statics s) flt,
            prototype := (if proto_writable s \<and> proto_writable t \<and> flt ''object''
                          then prototype s else prototype t)\<rparr>)\<rparr>)"

text \<open>\<open>assign\<close> as \<open>hot.patch\<close> calls it on two prototype objects.\<close>

definition assign_members :: "nat \<Rightarrow> nat \<Rightarrow> (string \<Rightarrow> bool) \<Rightarrow> js_heap \<Rightarrow> js_heap" where
  "assign_members target source flt h =
     h\<lparr>protos := (protos h)(target := (protos h target)
          \<lparr>members := assign (members (protos h target)) (members (protos h source)) flt\<rparr>)\<rparr>"

definition setPrototypeOf :: "nat \<Rightarrow> nat option \<Rightarrow> js_heap \<Rightarrow> js_heap" where
  "setPrototypeOf obj target h =
     h\<lparr>protos := (protos h)(obj := (protos h obj)\<lparr>delegate := target\<rparr>)\<rparr>"

text \<open>
  The body of the inner loop of \<open>hot.patch\<close>, for one \<open>old\<close> of the history. Each
  statement reads \<open>old.prototype\<close> and \<open>current.prototype\<close> when it runs, so the
  last two see what the first has made of \<open>current.prototype\<close>.
\<close>

definition patch_old :: "nat \<Rightarrow> nat \<Rightarrow> js_heap \<Rightarrow> js_heap" where
  "patch_old current old h =
     (let h1 = assign_constructor current old (\<lambda>type. type \<noteq> ''function'') h;
          h2 = assign_constructor old current (\<lambda>type. type = ''function'') h1;
          h3 = assign_members (prototype (ctors h2 old)) (prototype (ctors h2 current))
                 (\<lambda>type. type = ''function'') h2
      in setPrototypeOf (prototype (ctors h3 old))
           (delegate (protos h3 (prototype (ctors h3 current)))) h3)"

definition history_of :: "RegistryEntry \<Rightarrow> string \<Rightarrow> nat list" where
  "history_of entry name = (case map_of (patchees entry) name of None \<Rightarrow> [] | Some hs \<Rightarrow> hs)"

text \<open>The body of the outer loop of \<open>hot.patch\<close>, for one constructor.\<close>

definition patch_ctor :: "nat \<Rightarrow> RegistryEntry \<times> js_heap \<Rightarrow> RegistryEntry \<times> js_heap" where
  "patch_ctor current eh =
     (let entry = fst eh;
          h = snd eh;
          name = ctor_name (ctors h current);
          history = history_of entry name;
          h' = fold (patch_old current) history h
      in (entry\<lparr>patchees := AList.update name (history @ [current]) (patchees entry)\<rparr>, h'))"

definition hot_patch :: "nat list \<Rightarrow> RegistryEntry \<times> js_heap \<Rightarrow> RegistryEntry \<times> js_heap" where
  "hot_patch constructors eh = fold patch_ctor constructors eh"

text \<open>
  Modelled from the spec: \<open>isPlainObject\<close> and \<open>isConstructorLike\<close> of \<open>./utils\<close>
  are imported by the program and are not among its source files. A plain object is a
  "plain mapping" (section 4.4). \<open>patchExports\<close> hands a constructor-like value to
  \<open>hot.patch\<close>, whose parameters have the type \<open>Constructor\<close>: only function objects
  are constructor-like. Which of them are is not visible in the sources; it is the
  parameter \<open>ctor_like\<close>.
\<close>

fun isPlainObject :: "jsval \<Rightarrow> bool" where
  "isPlainObject (JObject ps) = True"
| "isPlainObject v = False"

text \<open>
  Modelled from the spec: \<open>isConstructorLike\<close> of \<open>./utils\<close>, absent from the source
  files, holds of "constructor-like" values; these are function objects, and
  \<open>ctor_like\<close> says which.
\<close>

fun isConstructorLike :: "(nat \<Rightarrow> bool) \<Rightarrow> jsval \<Rightarrow> bool" where
  "isConstructorLike ctor_like (JFunction c) = ctor_like c"
| "isConstructorLike ctor_like v = False"

fun getOwnPropertyNames :: "jsval \<Rightarrow> string list" where
  "getOwnPropertyNames (JObject ps) = map fst ps"
| "getOwnPropertyNames v = []"

text \<open>\<open>value[key]\<close> for an own property of a plain object.\<close>

fun get_prop :: "jsval \<Rightarrow> string \<Rightarrow> jsval" where
  "get_prop (JObject ps) key = (case map_of ps key of None \<Rightarrow> JUndefined | Some v \<Rightarrow> v)"
| "get_prop v key = JUndefined"

text \<open>\<open>mod.hot!.patch(xport)\<close> for a value that passed \<open>isConstructorLike\<close>.\<close>

fun patch_value :: "jsval \<Rightarrow> RegistryEntry \<times> js_heap \<Rightarrow> RegistryEntry \<times> js_heap" where
  "patch_value (JFunction c) eh = hot_patch [c] eh"
| "patch_value v eh = eh"

definition patchExports ::
  "(nat \<Rightarrow> bool) \<Rightarrow> NodeModule \<Rightarrow> RegistryEntry \<times> js_heap \<Rightarrow> RegistryEntry \<times> js_heap" where
  "patchExports ctor_like m eh =
     (if isPlainObject (exports m)
      then fold (\<lambda>key eh'. let xport = get_prop (exports m) key
                            in if isConstructorLike ctor_like xport then patch_value xport eh'
                               else eh')
             (getOwnPropertyNames (exports m)) eh
      else if isConstructorLike ctor_like (exports m) then patch_value (exports m) eh
      else eh)"

text \<open>
  The constructors \<open>patchExports\<close> is specified to pass on for a plain object, in the
  specification's words: the own property values that are constructor-like.
\<close>

fun ctor_like_values :: "(nat \<Rightarrow> bool) \<Rightarrow> (string \<times> jsval) list \<Rightarrow> nat list" where
  "ctor_like_values ctor_like [] = []"
| "ctor_like_values ctor_like ((key, JFunction c) # ps) =
     (if ctor_like c then c # ctor_like_values ctor_like ps else ctor_like_values ctor_like ps)"
| "ctor_like_values ctor_like ((key, v) # ps) = ctor_like_values ctor_like ps"

section \<open>The load hook\<close>

text \<open>
  \<open>Module.prototype.load\<close>, up to its call of the loader's own \<open>load\<close> (which runs the
  module body and is external).
\<close>

definition Module_load_before ::
  "(Options \<Rightarrow> string \<Rightarrow> bool) \<Rightarrow> NodeModule \<Rightarrow> string \<Rightarrow> hot_state
     \<Rightarrow> NodeModule \<times> hot_state" where
  "Module_load_before isEligible m f s =
     (if isEligible (cfg s) f then injectFile m f s else (m, s))"

text \<open>The loader puts a module into \<open>require.cache\<close> before it loads it.\<close>

definition loader_cache :: "NodeModule \<Rightarrow> hot_state \<Rightarrow> hot_state" where
  "loader_cache m s = s\<lparr>cache := (cache s)(mod_filename m \<mapsto> m)\<rparr>"

text \<open>
  \<open>Module.prototype.load\<close>, after the loader's own \<open>load\<close> has returned: the
  exports are patched when the file is eligible and \<open>patchExports\<close> is configured.
  The control object of the module writes to the entry it captured; that entry and the
  heap are the state here.
\<close>

definition Module_load_after ::
  "(Options \<Rightarrow> string \<Rightarrow> bool) \<Rightarrow> (nat \<Rightarrow> bool) \<Rightarrow> Options \<Rightarrow> NodeModule \<Rightarrow> string
     \<Rightarrow> RegistryEntry \<times> js_heap \<Rightarrow> RegistryEntry \<times> js_heap" where
  "Module_load_after isEligible ctor_like c m f eh =
     (if isEligible c f \<and> patchExports_opt c then patchExports ctor_like m eh else eh)"

section \<open>Invariants of a run\<close>

text \<open>
  Every entry of the registry is stored under its own file name: \<open>registerFile\<close>
  establishes it and no operation breaks it.
\<close>

definition registry_ok :: "(string \<times> RegistryEntry) list \<Rightarrow> bool" where
  "registry_ok reg = list_all (\<lambda>ke. filename (snd ke) = fst ke) reg"

definition keys :: "reload_run \<Rightarrow> string set" where
  "keys r = fst ` set (registry (world r))"

fun step_file :: "reload_step \<Rightarrow> string" where
  "step_file (StoreInvoked f) = f"
| "step_file (CacheEvicted f) = f"
| "step_file (EdgesRemoved f) = f"

definition accepted_at :: "(string \<times> RegistryEntry) list \<Rightarrow> string \<Rightarrow> bool option" where
  "accepted_at reg k = map_option accepted (map_of reg k)"

text \<open>What a call of \<open>reload\<close> or of its loop may change between a run and a later one.\<close>

definition run_post :: "reload_run \<Rightarrow> reload_run \<Rightarrow> bool" where
  "run_post r r' =
     (registry_ok (registry (world r')) \<and> keys r' = keys r
      \<and> set (reloaded r) \<subseteq> set (reloaded r')
      \<and> set (acceptees r) \<subseteq> set (acceptees r')
      \<and> set (acceptees r') \<subseteq> set (acceptees r) \<union> (set (reloaded r') - set (reloaded r))
      \<and> (\<exists>new. steps r' = steps r @ new \<and> distinct new
             \<and> step_file ` set new \<subseteq> set (reloaded r') - set (reloaded r))
      \<and> accepted_at (registry (world r')) = accepted_at (registry (world r))
      \<and> (distinct (acceptees r) \<longrightarrow> distinct (acceptees r'))
      \<and> set (graph (world r')) \<subseteq> set (graph (world r))
      \<and> mainModule (world r') = mainModule (world r))"

text \<open>
  The loop of \<open>reload\<close> in the words of the specification, for comparison with
  \<open>reload_dependants\<close>: recurse into every dependant that has a registry entry and is
  not yet visited, that is, call \<open>reload\<close> on its entry; skip every other dependant,
  leaving the run as it is.
\<close>

definition visit_dependant :: "nat \<Rightarrow> string \<Rightarrow> reload_run \<Rightarrow> reload_run option" where
  "visit_dependant n dependant r =
     (case map_of (registry (world r)) dependant of
        None \<Rightarrow> Some r
      | Some dependantEntry \<Rightarrow>
          if filename dependantEntry \<in> set (reloaded r) then Some r
          else reload n dependantEntry r)"

fun recurse_into :: "nat \<Rightarrow> string list \<Rightarrow> reload_run \<Rightarrow> reload_run option" where
  "recurse_into n [] r = Some r"
| "recurse_into n (dependant # rest) r =
     (case visit_dependant n dependant r of
        None \<Rightarrow> None
      | Some r' \<Rightarrow> recurse_into n rest r')"

text \<open>What the reload of one entry writes to the log of the run.\<close>

definition visit_log :: "string \<Rightarrow> reload_step list" where
  "visit_log f = [StoreInvoked f, CacheEvicted f, EdgesRemoved f]"

text \<open>
  The decision rule applied to the entries a call reloads, in the order it reloads them:
  an entry is a reload root when its accepted flag is set or when, once its own outgoing
  edges are removed, it has no dependants. \<open>acc\<close> gives the accepted flag of a file
  name, \<open>g\<close> is the graph before the first of the entries is reloaded.
\<close>

fun reload_roots :: "(string \<Rightarrow> bool option) \<Rightarrow> Graph \<Rightarrow> string list \<Rightarrow> string list" where
  "reload_roots acc g [] = []"
| "reload_roots acc g (f # fs) =
     (let g' = fst (removeDependencies g f)
      in (if acc f = Some True \<or> getDependantsOf g' f = [] then [f] else [])
         @ reload_roots acc g' fs)"

text \<open>
  What a call of \<open>reload\<close> has done to the run when the entries it reloaded are
  \<open>new\<close>, in this order: they are registered entries that were not reloaded before,
  each was logged, evicted from the cache, had its store callback run and its outgoing
  edges removed; the reload roots among them were appended to the acceptees; nothing
  else in the cache or the registry was touched.
\<close>

definition run_frame :: "string list \<Rightarrow> reload_run \<Rightarrow> reload_run \<Rightarrow> bool" where
  "run_frame new r r' =
     (reloaded r' = reloaded r @ new
      \<and> distinct new \<and> set new \<inter> set (reloaded r) = {} \<and> set new \<subseteq> keys r
      \<and> steps r' = steps r @ concat (map visit_log new)
      \<and> acceptees r' = acceptees r
            @ reload_roots (accepted_at (registry (world r))) (graph (world r)) new
      \<and> graph (world r') = fold (\<lambda>f g. fst (removeDependencies g f)) new (graph (world r))
      \<and> list_all (\<lambda>f. cache (world r') f = None
                      \<and> map_of (registry (world r')) f
                          = map_option run_store (map_of (registry (world r)) f)) new
      \<and> (\<forall>f. f \<in> set new \<or> (cache (world r') f = cache (world r) f
                \<and> map_of (registry (world r')) f = map_of (registry (world r)) f)))"

text \<open>
  No edge of the graph has the main module's file name as its dependent (edges hold file
  names; \<open>process.mainModule\<close> may be undefined).
\<close>

definition no_main_edge :: "hot_state \<Rightarrow> bool" where
  "no_main_edge s =
     (case mainModule s of
        None \<Rightarrow> True
      | Some m \<Rightarrow> list_all (\<lambda>e. fst e \<noteq> mod_filename m) (graph s))"

section \<open>Example states\<close>

text \<open>
  A stand-in for \<open>isEligible\<close> in the examples below: a path is ineligible when
  \<open>exclude\<close> lists it literally.
\<close>

definition example_isEligible :: "Options \<Rightarrow> string \<Rightarrow> bool" where
  "example_isEligible c path = (path \<notin> set (exclude c))"

text \<open>Two registered modules that require each other.\<close>

definition cyclic_example :: hot_state where
  "cyclic_example =
     \<lparr>cfg = \<lparr>silent = False, patchExports_opt = False, exclude = [''/app/node_modules/m.js'']\<rparr>,
      graph = [(''/app/a.js'', ''/app/b.js''), (''/app/b.js'', ''/app/a.js'')],
      registry = [(''/app/a.js'', new_entry 1 ''/app/a.js''),
                  (''/app/b.js'', new_entry 2 ''/app/b.js'')],
      cache = Map.empty,
      watched = {''/app/a.js'', ''/app/b.js''},
      mainModule = None\<rparr>"

text \<open>
  The chain A requires B requires C, loaded from the initial state in the order the
  loader works: B is cached and loaded, its body requires C, which is cached and loaded;
  then the hook of B's require of C finishes, then the hook of A's require of B.
  \<open>hooked_main\<close> says whether the hooks were already installed when A itself was
  loaded (then A went through the load hook too). \<open>main\<close> is \<open>process.mainModule\<close>.
\<close>

definition chain_state ::
  "(Options \<Rightarrow> string \<Rightarrow> bool) \<Rightarrow> bool \<Rightarrow> NodeModule option
     \<Rightarrow> NodeModule \<Rightarrow> NodeModule \<Rightarrow> NodeModule \<Rightarrow> hot_state" where
  "chain_state isEligible hooked_main main mA mB mC =
     (let s0 = initial_state main;
          (mA1, s1) = (if hooked_main
                       then Module_load_before isEligible mA (mod_filename mA) (loader_cache mA s0)
                       else (mA, s0));
          (mB1, s2) = Module_load_before isEligible mB (mod_filename mB) (loader_cache mB s1);
          (mC1, s3) = Module_load_before isEligible mC (mod_filename mC) (loader_cache mC s2);
          (xC, s4) = Module_require isEligible mB1 (mod_filename mC) (exports mC1) s3;
          (xB, s5) = Module_require isEligible mA1 (mod_filename mB) (exports mB1) s4
      in s5)"

definition example_module :: "nat \<Rightarrow> string \<Rightarrow> NodeModule" where
  "example_module i f = \<lparr>mod_id = i, mod_filename = f, exports = JUndefined, hot = None\<rparr>"

text \<open>The chain with A as the process entry point, loaded with the hooks installed.\<close>

definition chain_example :: hot_state where
  "chain_example =
     chain_state example_isEligible True (Some (example_module 1 ''/app/a.js''))
       (example_module 1 ''/app/a.js'') (example_module 2 ''/app/b.js'')
       (example_module 3 ''/app/c.js'')"


text \<open>
  The entry point \<open>/app/main.js\<close> is the main module and \<open>/app/b.js\<close> is cached.
  A second module object for \<open>/app/main.js\<close> (the file required again after its
  eviction from the cache) is not \<open>process.mainModule\<close>.
\<close>

definition main_again_example :: hot_state where
  "main_again_example =
     loader_cache (example_module 2 ''/app/b.js'')
       (initial_state (Some (example_module 1 ''/app/main.js'')))"


text \<open>An entry whose stash holds one field.\<close>

definition stashed_example :: RegistryEntry where
  "stashed_example = (new_entry 1 ''/app/a.js'')\<lparr>stash := Some [(''count'', JNum 3)]\<rparr>"

text \<open>
  Two classes named \<open>Widget\<close>: the old identity 1 (prototype 11), recorded in the
  entry's history, and the new identity 2 (prototype 12).
\<close>

definition widget_heap :: js_heap where
  "widget_heap =
     \<lparr>ctors = (\<lambda>a. \<lparr>ctor_name = [], statics = Map.empty, prototype = 0,
                      proto_writable = False\<rparr>)
        (1 := \<lparr>ctor_name = ''Widget'',
                statics = [''count'' \<mapsto> JNum 5, ''create'' \<mapsto> JFunction 101],
                prototype = 11, proto_writable = False\<rparr>,
         2 := \<lparr>ctor_name = ''Widget'',
                statics = [''create'' \<mapsto> JFunction 102],
                prototype = 12, proto_writable = False\<rparr>),
      protos = (\<lambda>a. \<lparr>members = Map.empty, delegate = None\<rparr>)
        (11 := \<lparr>members = [''render'' \<mapsto> JFunction 201, ''title'' \<mapsto> JStr ''old''],
                 delegate = Some 20\<rparr>,
         12 := \<lparr>members = [''render'' \<mapsto> JFunction 202], delegate = Some 21\<rparr>)\<rparr>"

text \<open>
  The same two constructors written as functions (\<open>function Widget() { }\<close> with
  \<open>Widget.prototype.render = ...\<close>): old identity 1 with prototype 11 and
  \<open>render\<close> 301, new identity 2 with prototype 12 and \<open>render\<close> 302.
\<close>

definition function_widget_heap :: js_heap where
  "function_widget_heap =
     \<lparr>ctors = (\<lambda>a. \<lparr>ctor_name = [], statics = Map.empty, prototype = 0,
                      proto_writable = True\<rparr>)
        (1 := \<lparr>ctor_name = ''Widget'',
                statics = [''count'' \<mapsto> JNum 5],
                prototype = 11, proto_writable = True\<rparr>,
         2 := \<lparr>ctor_name = ''Widget'',
                statics = Map.empty,
                prototype = 12, proto_writable = True\<rparr>),
      protos = (\<lambda>a. \<lparr>members = Map.empty, delegate = None\<rparr>)
        (11 := \<lparr>members = [''render'' \<mapsto> JFunction 301], delegate = Some 20\<rparr>,
         12 := \<lparr>members = [''render'' \<mapsto> JFunction 302], delegate = Some 21\<rparr>)\<rparr>"

definition widget_entry :: RegistryEntry where
  "widget_entry = (new_entry 1 ''/app/widget.js'')\<lparr>patchees := [(''Widget'', [1])]\<rparr>"

definition function_widget_entry :: RegistryEntry where
  "function_widget_entry = (new_entry 1 ''/app/widget.js'')\<lparr>patchees := [(''Widget'', [1])]\<rparr>"

text \<open>The two modules of the cycle, after \<open>/app/a.js\<close> has called \<open>accept\<close>.\<close>

definition accepted_example :: hot_state where
  "accepted_example =
     cyclic_example\<lparr>registry := [(''/app/a.js'', hot_accept (new_entry 1 ''/app/a.js'')),
                                 (''/app/b.js'', new_entry 2 ''/app/b.js'')]\<rparr>"

text \<open>A module exporting \<open>{ Foo: class, bar: 42 }\<close>, the class being function object 2.\<close>

definition exports_example :: NodeModule where
  "exports_example =
     (example_module 5 ''/app/widget.js'')
       \<lparr>exports := JObject [(''Foo'', JFunction 2), (''bar'', JNum 42)],
        hot := Some ''/app/widget.js''\<rparr>"


text \<open>
  A test file required by a runner that lives under \<open>node_modules\<close>: the runner is
  ineligible, so it never got a registry entry, but the require hook recorded its edge.
\<close>

definition runner_example :: hot_state where
  "runner_example =
     (initial_state None)
       \<lparr>graph := [(''/app/node_modules/runner/index.js'', ''/app/test.js'')],
        registry := [(''/app/test.js'', new_entry 1 ''/app/test.js'')],
        watched := {''/app/test.js''}\<rparr>"

section \<open>Theorems\<close>

lemma set_set_add: "set (set_add x xs) = insert x (set xs)"
  by (auto simp: set_add_def)

lemma registry_ok_lookup: "registry_ok reg \<Longrightarrow> map_of reg k = Some e \<Longrightarrow> filename e = k"
  by (induction reg) (auto simp: registry_ok_def split: if_splits)

lemma registry_ok_update: "registry_ok reg \<Longrightarrow> filename e = k \<Longrightarrow> registry_ok (AList.update k e reg)"
  by (induction reg) (auto simp: registry_ok_def)

lemma run_store_filename [simp]: "filename (run_store e) = filename e"
  by (simp add: run_store_def split: option.splits)

lemma run_store_accepted [simp]: "accepted (run_store e) = accepted e"
  by (simp add: run_store_def split: option.splits)

lemma visit_registry: "registry (world (reload_visit e r)) = AList.update (filename e) (run_store e) (registry (world r))"
  by (simp add: reload_visit_def Let_def split: prod.splits)

lemma visit_reloaded: "reloaded (reload_visit e r) = set_add (filename e) (reloaded r)"
  by (simp add: reload_visit_def Let_def split: prod.splits)

lemma visit_acceptees: "acceptees (reload_visit e r) = acceptees r"
  by (simp add: reload_visit_def Let_def split: prod.splits)

lemma visit_steps: "steps (reload_visit e r) = steps r @ [StoreInvoked (filename e), CacheEvicted (filename e), EdgesRemoved (filename e)]"
  by (simp add: reload_visit_def Let_def split: prod.splits)

lemma visit_graph:
  "graph (world (reload_visit e r)) = fst (removeDependencies (graph (world r)) (filename e))"
  by (simp add: reload_visit_def Let_def split: prod.splits)

lemma lookup_in_keys: "map_of (registry (world r)) k = Some e \<Longrightarrow> k \<in> keys r"
  by (auto simp: keys_def dest: map_of_SomeD intro: rev_image_eqI)

lemma run_postI:
  assumes "registry_ok (registry (world r'))" "keys r' = keys r"
    "set (reloaded r) \<subseteq> set (reloaded r')"
    "set (acceptees r) \<subseteq> set (acceptees r')"
    "set (acceptees r') \<subseteq> set (acceptees r) \<union> (set (reloaded r') - set (reloaded r))"
    "\<exists>new. steps r' = steps r @ new \<and> distinct new
             \<and> step_file ` set new \<subseteq> set (reloaded r') - set (reloaded r)"
    "accepted_at (registry (world r')) = accepted_at (registry (world r))"
    "distinct (acceptees r) \<Longrightarrow> distinct (acceptees r')"
    "set (graph (world r')) \<subseteq> set (graph (world r))"
    "mainModule (world r') = mainModule (world r)"
  shows "run_post r r'"
  unfolding run_post_def using assms by blast

lemma run_post_ok: "run_post r r' \<Longrightarrow> registry_ok (registry (world r'))"
  unfolding run_post_def by blast

lemma run_post_keys: "run_post r r' \<Longrightarrow> keys r' = keys r"
  unfolding run_post_def by blast

lemma run_post_reloaded: "run_post r r' \<Longrightarrow> set (reloaded r) \<subseteq> set (reloaded r')"
  unfolding run_post_def by blast

lemma run_post_acc_mono: "run_post r r' \<Longrightarrow> set (acceptees r) \<subseteq> set (acceptees r')"
  unfolding run_post_def by blast

lemma run_post_acc_new:
  "run_post r r' \<Longrightarrow> set (acceptees r') \<subseteq> set (acceptees r) \<union> (set (reloaded r') - set (reloaded r))"
  unfolding run_post_def by blast

lemma run_post_steps:
  "run_post r r' \<Longrightarrow> \<exists>new. steps r' = steps r @ new \<and> distinct new
             \<and> step_file ` set new \<subseteq> set (reloaded r') - set (reloaded r)"
  unfolding run_post_def by blast

lemma run_post_accepted: "run_post r r' \<Longrightarrow> accepted_at (registry (world r')) = accepted_at (registry (world r))"
  unfolding run_post_def by blast

lemma run_post_distinct: "run_post r r' \<Longrightarrow> distinct (acceptees r) \<Longrightarrow> distinct (acceptees r')"
  unfolding run_post_def by blast

lemma run_post_graph: "run_post r r' \<Longrightarrow> set (graph (world r')) \<subseteq> set (graph (world r))"
  unfolding run_post_def by blast

lemma run_post_main: "run_post r r' \<Longrightarrow> mainModule (world r') = mainModule (world r)"
  unfolding run_post_def by blast

lemma run_post_refl: "registry_ok (registry (world r)) \<Longrightarrow> run_post r r"
  by (rule run_postI) simp_all

lemma run_post_trans:
  assumes "run_post r r1" "run_post r1 r2"
  shows "run_post r r2"
proof (rule run_postI)
  obtain n1 where n1: "steps r1 = steps r @ n1" "distinct n1"
      "step_file ` set n1 \<subseteq> set (reloaded r1) - set (reloaded r)"
    using run_post_steps[OF assms(1)] by blast
  obtain n2 where n2: "steps r2 = steps r1 @ n2" "distinct n2"
      "step_file ` set n2 \<subseteq> set (reloaded r2) - set (reloaded r1)"
    using run_post_steps[OF assms(2)] by blast
  note sub = run_post_reloaded[OF assms(1)] run_post_reloaded[OF assms(2)]
  have "set n1 \<inter> set n2 = {}" using n1(3) n2(3) by (auto simp: image_subset_iff)
  then have d: "distinct (n1 @ n2)" using n1(2) n2(2) by simp
  have f: "step_file ` set (n1 @ n2) \<subseteq> set (reloaded r2) - set (reloaded r)"
    using n1(3) n2(3) sub by auto
  have s: "steps r2 = steps r @ (n1 @ n2)" using n1(1) n2(1) by simp
  show "\<exists>new. steps r2 = steps r @ new \<and> distinct new
             \<and> step_file ` set new \<subseteq> set (reloaded r2) - set (reloaded r)"
    using s d f by blast
  show "set (acceptees r2) \<subseteq> set (acceptees r) \<union> (set (reloaded r2) - set (reloaded r))"
    using run_post_acc_new[OF assms(1)] run_post_acc_new[OF assms(2)] sub by blast
  show "registry_ok (registry (world r2))" by (rule run_post_ok[OF assms(2)])
  show "keys r2 = keys r" using run_post_keys[OF assms(1)] run_post_keys[OF assms(2)] by simp
  show "set (reloaded r) \<subseteq> set (reloaded r2)" using sub by blast
  show "set (acceptees r) \<subseteq> set (acceptees r2)"
    using run_post_acc_mono[OF assms(1)] run_post_acc_mono[OF assms(2)] by blast
  show "accepted_at (registry (world r2)) = accepted_at (registry (world r))"
    using run_post_accepted[OF assms(1)] run_post_accepted[OF assms(2)] by simp
  show "distinct (acceptees r2)" if "distinct (acceptees r)"
    using that run_post_distinct[OF assms(1)] run_post_distinct[OF assms(2)] by blast
  show "set (graph (world r2)) \<subseteq> set (graph (world r))"
    using run_post_graph[OF assms(1)] run_post_graph[OF assms(2)] by blast
  show "mainModule (world r2) = mainModule (world r)"
    using run_post_main[OF assms(1)] run_post_main[OF assms(2)] by simp
qed

lemma visit_post:
  assumes "registry_ok (registry (world r))" "map_of (registry (world r)) (filename e) = Some e"
    "filename e \<notin> set (reloaded r)"
  shows "run_post r (reload_visit e r)"
proof (rule run_postI)
  show "registry_ok (registry (world (reload_visit e r)))"
    using assms(1) by (simp add: visit_registry registry_ok_update)
  show "keys (reload_visit e r) = keys r"
    using lookup_in_keys[OF assms(2)] by (auto simp: keys_def visit_registry AList.dom_update)
  show "accepted_at (registry (world (reload_visit e r))) = accepted_at (registry (world r))"
    using assms(2) by (auto simp: accepted_at_def visit_registry AList.update_conv' fun_eq_iff)
  show "\<exists>new. steps (reload_visit e r) = steps r @ new \<and> distinct new
             \<and> step_file ` set new \<subseteq> set (reloaded (reload_visit e r)) - set (reloaded r)"
    using assms(3) by (simp add: visit_steps visit_reloaded set_set_add)
  show "set (reloaded r) \<subseteq> set (reloaded (reload_visit e r))"
    by (auto simp: visit_reloaded set_set_add)
  show "set (acceptees r) \<subseteq> set (acceptees (reload_visit e r))"
    by (simp add: visit_acceptees)
  show "set (acceptees (reload_visit e r)) \<subseteq> set (acceptees r) \<union> (set (reloaded (reload_visit e r)) - set (reloaded r))"
    by (simp add: visit_acceptees)
  show "distinct (acceptees (reload_visit e r))" if "distinct (acceptees r)"
    using that by (simp add: visit_acceptees)
  show "set (graph (world (reload_visit e r))) \<subseteq> set (graph (world r))"
    by (auto simp: visit_graph removeDependencies_def Let_def)
  show "mainModule (world (reload_visit e r)) = mainModule (world r)"
    by (simp add: reload_visit_def Let_def split: prod.splits)
qed

lemma accept_post:
  assumes "filename e \<in> set (reloaded r') - set (reloaded r)" "run_post r r'"
  shows "run_post r (r'\<lparr>acceptees := set_add (filename e) (acceptees r')\<rparr>)"
proof (rule run_postI)
  show "registry_ok (registry (world (r'\<lparr>acceptees := set_add (filename e) (acceptees r')\<rparr>)))"
    using run_post_ok[OF assms(2)] by simp
  show "keys (r'\<lparr>acceptees := set_add (filename e) (acceptees r')\<rparr>) = keys r"
    using run_post_keys[OF assms(2)] by (simp add: keys_def)
  show "set (reloaded r) \<subseteq> set (reloaded (r'\<lparr>acceptees := set_add (filename e) (acceptees r')\<rparr>))"
    using run_post_reloaded[OF assms(2)] by simp
  show "set (acceptees r) \<subseteq> set (acceptees (r'\<lparr>acceptees := set_add (filename e) (acceptees r')\<rparr>))"
    using run_post_acc_mono[OF assms(2)] by (auto simp: set_set_add)
  show "set (acceptees (r'\<lparr>acceptees := set_add (filename e) (acceptees r')\<rparr>))
      \<subseteq> set (acceptees r) \<union> (set (reloaded (r'\<lparr>acceptees := set_add (filename e) (acceptees r')\<rparr>)) - set (reloaded r))"
    using run_post_acc_new[OF assms(2)] assms(1) by (auto simp: set_set_add)
  show "\<exists>new. steps (r'\<lparr>acceptees := set_add (filename e) (acceptees r')\<rparr>) = steps r @ new \<and> distinct new
             \<and> step_file ` set new \<subseteq> set (reloaded (r'\<lparr>acceptees := set_add (filename e) (acceptees r')\<rparr>)) - set (reloaded r)"
    using run_post_steps[OF assms(2)] by simp
  show "accepted_at (registry (world (r'\<lparr>acceptees := set_add (filename e) (acceptees r')\<rparr>))) = accepted_at (registry (world r))"
    using run_post_accepted[OF assms(2)] by simp
  show "distinct (acceptees (r'\<lparr>acceptees := set_add (filename e) (acceptees r')\<rparr>))"
    if "distinct (acceptees r)"
    using run_post_distinct[OF assms(2) that] by (simp add: set_add_def)
  show "set (graph (world (r'\<lparr>acceptees := set_add (filename e) (acceptees r')\<rparr>))) \<subseteq> set (graph (world r))"
    using run_post_graph[OF assms(2)] by simp
  show "mainModule (world (r'\<lparr>acceptees := set_add (filename e) (acceptees r')\<rparr>)) = mainModule (world r)"
    using run_post_main[OF assms(2)] by simp
qed

lemma card_step:
  assumes "finite K" "f \<in> K" "f \<notin> R" "card (K - R) \<le> Suc n"
  shows "card (K - insert f R) \<le> n"
proof -
  have "K - insert f R = (K - R) - {f}" by auto
  moreover have "f \<in> K - R" using assms by simp
  ultimately have "card (K - insert f R) = card (K - R) - 1" using assms(1) by simp
  with assms(4) show ?thesis by simp
qed

lemma reload_total_aux:
  shows "registry_ok (registry (world r)) \<Longrightarrow> map_of (registry (world r)) (filename entry) = Some entry
      \<Longrightarrow> filename entry \<notin> set (reloaded r) \<Longrightarrow>
      card (keys r - set (reloaded r)) \<le> n \<Longrightarrow>
      \<exists>r'. reload n entry r = Some r' \<and> run_post r r' \<and> filename entry \<in> set (reloaded r')"
  and "registry_ok (registry (world r)) \<Longrightarrow> card (keys r - set (reloaded r)) \<le> n \<Longrightarrow>
        \<exists>r'. reload_dependants n ds r = Some r' \<and> run_post r r' \<and> set ds \<inter> keys r \<subseteq> set (reloaded r')"
proof (induction n entry r and n ds r rule: reload_reload_dependants.induct)
  case (1 entry r)
  have "finite (keys r)" by (simp add: keys_def)
  moreover have "filename entry \<in> keys r - set (reloaded r)" using 1 lookup_in_keys by simp
  ultimately have "card (keys r - set (reloaded r)) > 0" by (metis card_gt_0_iff finite_Diff empty_iff)
  with 1 show ?case by simp
next
  case (2 n entry r)
  let ?r1 = "reload_visit entry r"
  have p1: "run_post r ?r1" using 2 by (simp add: visit_post)
  have ok1: "registry_ok (registry (world ?r1))" and k1: "keys ?r1 = keys r"
    using run_post_ok[OF p1] run_post_keys[OF p1] by blast+
  have rl1: "set (reloaded ?r1) = insert (filename entry) (set (reloaded r))"
    by (simp add: visit_reloaded set_set_add)
  have fin: "finite (keys r)" by (simp add: keys_def)
  have "filename entry \<in> keys r" using 2 lookup_in_keys by simp
  then have c1: "card (keys ?r1 - set (reloaded ?r1)) \<le> n"
    unfolding k1 rl1 using card_step[OF fin] 2 by blast
  show ?case
  proof (cases "accepted entry \<or> getDependantsOf (graph (world ?r1)) (filename entry) = []")
    case True
    have "filename entry \<in> set (reloaded ?r1) - set (reloaded r)" using rl1 2 by simp
    from accept_post[OF this p1] True rl1 show ?thesis by (auto simp: Let_def)
  next
    case False
    from 2(1)[OF refl refl False ok1 c1]
    obtain r' where r': "reload_dependants n (getDependantsOf (graph (world ?r1)) (filename entry)) ?r1 = Some r'"
      "run_post ?r1 r'"
      by blast
    have "filename entry \<in> set (reloaded r')" using run_post_reloaded[OF r'(2)] rl1 by blast
    then show ?thesis using False r' run_post_trans[OF p1 r'(2)] by (auto simp: Let_def)
  qed
next
  case (3 n r)
  then show ?case by (simp add: run_post_refl)
next
  case (4 n dependant rest r)
  show ?case
  proof (cases "map_of (registry (world r)) dependant")
    case None
    then have "dependant \<notin> keys r" by (simp add: keys_def map_of_eq_None_iff)
    then show ?thesis using 4 None by auto
  next
    case (Some de)
    have fde: "filename de = dependant" using registry_ok_lookup 4 Some by blast
    show ?thesis
    proof (cases "filename de \<in> set (reloaded r)")
      case True
      from 4(2)[OF Some True "4.prems"]
      obtain r' where "reload_dependants n rest r = Some r'" "run_post r r'" "set rest \<inter> keys r \<subseteq> set (reloaded r')"
        by blast
      moreover from this have "dependant \<in> set (reloaded r')" using True fde run_post_reloaded by blast
      ultimately show ?thesis using Some True by auto
    next
      case False
      have cur: "map_of (registry (world r)) (filename de) = Some de" using Some fde by simp
      from 4(3)[OF Some False "4.prems"(1) cur False "4.prems"(2)]
      obtain r1 where r1: "reload n de r = Some r1" "run_post r r1" "filename de \<in> set (reloaded r1)" by blast
      have "card (keys r1 - set (reloaded r1)) \<le> card (keys r - set (reloaded r))"
        using run_post_keys[OF r1(2)] run_post_reloaded[OF r1(2)] by (auto simp: keys_def intro!: card_mono)
      then have c: "card (keys r1 - set (reloaded r1)) \<le> n" using "4.prems" by simp
      have ok1: "registry_ok (registry (world r1))" using r1(2) by (rule run_post_ok)
      from 4(4)[OF Some False r1(1) ok1 c]
      obtain r' where r': "reload_dependants n rest r1 = Some r'" "run_post r1 r'" "set rest \<inter> keys r1 \<subseteq> set (reloaded r')"
        by blast
      have "keys r1 = keys r" "set (reloaded r1) \<subseteq> set (reloaded r')"
        using run_post_keys[OF r1(2)] run_post_reloaded[OF r'(2)] by blast+
      then have "set (dependant # rest) \<inter> keys r \<subseteq> set (reloaded r')" using r'(3) r1(3) fde by auto
      then show ?thesis using Some False r1(1) r'(1) run_post_trans[OF r1(2) r'(2)] by auto
    qed
  qed
qed



text \<open>The registry invariant holds initially and is kept by the operations that write the registry.\<close>

lemma registry_ok_initial: "registry_ok (registry (initial_state main))"
  by (simp add: initial_state_def registry_ok_def)

lemma registerFile_ok:
  "registry_ok (registry s) \<Longrightarrow> registry_ok (registry (snd (registerFile m f s)))"
  by (auto simp: registerFile_def registry_ok_def new_entry_def Let_def split: option.splits)

lemma registerFile_filename:
  "registry_ok (registry s) \<Longrightarrow> filename (fst (registerFile m f s)) = f"
  by (auto simp: registerFile_def new_entry_def Let_def registry_ok_lookup split: option.splits)

lemma injectFile_ok:
  "registry_ok (registry s) \<Longrightarrow> registry_ok (registry (snd (injectFile m f s)))"
  using registerFile_ok[of s m f]
  by (auto simp: injectFile_def Let_def split: option.splits prod.splits)

text \<open>Fuel is only a bound: a result does not depend on how much more fuel there is.\<close>

lemma reload_fuel_mono:
  shows "reload n entry r = Some r' \<Longrightarrow> n \<le> m \<Longrightarrow> reload m entry r = Some r'"
    and "reload_dependants n ds r = Some r' \<Longrightarrow> n \<le> m \<Longrightarrow> reload_dependants m ds r = Some r'"
proof (induction n entry r and n ds r arbitrary: m r' and m r' rule: reload_reload_dependants.induct)
  case (1 entry r m r')
  then show ?case by simp
next
  case (2 n entry r m r')
  from "2.prems"(2) obtain k where k: "m = Suc k" "n \<le> k" by (cases m) auto
  show ?case
  proof (cases "accepted entry \<or> getDependantsOf (graph (world (reload_visit entry r))) (filename entry) = []")
    case True
    then show ?thesis using "2.prems"(1) k by (simp add: Let_def)
  next
    case False
    then have "reload_dependants n (getDependantsOf (graph (world (reload_visit entry r))) (filename entry))
        (reload_visit entry r) = Some r'" using "2.prems"(1) by (simp add: Let_def)
    note ih = "2.IH"[OF refl refl False this k(2)]
    have "reload (Suc k) entry r
        = reload_dependants k (getDependantsOf (graph (world (reload_visit entry r))) (filename entry))
            (reload_visit entry r)"
      using False by (simp add: Let_def)
    then show ?thesis using ih k(1) by simp
  qed
next
  case (3 n r m r')
  then show ?case by simp
next
  case (4 n dependant rest r m r')
  show ?case
  proof (cases "map_of (registry (world r)) dependant")
    case None
    then have "reload_dependants n rest r = Some r'" using "4.prems"(1) by simp
    from "4.IH"(1)[OF None this "4.prems"(2)] show ?thesis using None by simp
  next
    case (Some de)
    show ?thesis
    proof (cases "filename de \<in> set (reloaded r)")
      case True
      then have "reload_dependants n rest r = Some r'" using "4.prems"(1) Some by simp
      from "4.IH"(2)[OF Some True this "4.prems"(2)] show ?thesis using Some True by simp
    next
      case False
      from "4.prems"(1) Some False obtain r1 where r1: "reload n de r = Some r1"
        "reload_dependants n rest r1 = Some r'" by (auto split: option.splits)
      from "4.IH"(3)[OF Some False r1(1) "4.prems"(2)] "4.IH"(4)[OF Some False r1(1) r1(2) "4.prems"(2)]
      show ?thesis using Some False by simp
    qed
  qed
qed

lemma card_keys_le: "card (keys r) \<le> length (registry (world r))"
  unfolding keys_def by (metis card_image_le card_length le_trans List.finite_set)

lemma fresh_run_fuel:
  assumes "length (registry s) < n"
  shows "card (keys (fresh_run s) - set (reloaded (fresh_run s))) \<le> n"
proof -
  let ?r = "fresh_run s"
  have "card (keys ?r - set (reloaded ?r)) \<le> card (keys ?r)"
    by (intro card_mono) (auto simp: keys_def)
  also have "\<dots> \<le> length (registry s)" using card_keys_le[of ?r] by (simp add: fresh_run_def)
  finally show ?thesis using assms by simp
qed

subsection \<open>Termination and at-most-once reload\<close>

text \<open>
  Claim C3. Whatever the dependency graph is (it is not constrained here, so cycles are
  included), a top-level \<open>reload\<close> of a registered entry returns as soon as the fuel
  exceeds the number of registry entries, with the same result for any larger fuel, and
  the log of the run has no repetition: for each entry the store callback is invoked,
  the cache evicted and the edges removed at most once.
\<close>

theorem reload_terminates_once:
  assumes "registry_ok (registry s)" and "map_of (registry s) file = Some entry"
    and "length (registry s) < n"
  shows "\<exists>r. reload n entry (fresh_run s) = Some r \<and> distinct (steps r)
           \<and> (\<forall>m. n \<le> m \<longrightarrow> reload m entry (fresh_run s) = Some r)"
proof -
  let ?r = "fresh_run s"
  have f: "filename entry = file" using registry_ok_lookup assms(1,2) by blast
  have w: "world ?r = s" "reloaded ?r = []" "steps ?r = []" by (simp_all add: fresh_run_def)
  note c = fresh_run_fuel[OF assms(3)]
  from reload_total_aux(1)[of ?r entry n] assms f w c
  obtain r where r: "reload n entry ?r = Some r" "run_post ?r r" by auto
  from run_post_steps[OF r(2)] w have "distinct (steps r)" by auto
  moreover have "\<forall>m. n \<le> m \<longrightarrow> reload m entry ?r = Some r"
    using reload_fuel_mono(1)[OF r(1)] by blast
  ultimately show ?thesis using r(1) by blast
qed

theorem reload_terminates_once_witness:
  "registry_ok (registry cyclic_example)
   \<and> map_of (registry cyclic_example) ''/app/a.js'' = Some (new_entry 1 ''/app/a.js'')
   \<and> length (registry cyclic_example) < 3
   \<and> (\<exists>r. reload 3 (new_entry 1 ''/app/a.js'') (fresh_run cyclic_example) = Some r
          \<and> distinct (steps r))"
  using reload_terminates_once [of cyclic_example "''/app/a.js''" "new_entry 1 ''/app/a.js''" 3]
  by (simp add: cyclic_example_def registry_ok_def new_entry_def) blast

text \<open>The run on the cycle, evaluated: both entries are reloaded once, and the second is the root.\<close>

lemma cyclic_example_run:
  "map_option (\<lambda>r. (acceptees r, reloaded r, steps r))
     (reload 3 (new_entry 1 ''/app/a.js'') (fresh_run cyclic_example))
   = Some ([''/app/b.js''], [''/app/a.js'', ''/app/b.js''],
       [StoreInvoked ''/app/a.js'', CacheEvicted ''/app/a.js'', EdgesRemoved ''/app/a.js'',
        StoreInvoked ''/app/b.js'', CacheEvicted ''/app/b.js'', EdgesRemoved ''/app/b.js''])"
  by (simp add: numeral_3_eq_3 cyclic_example_def fresh_run_def new_entry_def reload_visit_def
      removeDependencies_def getDependantsOf_def run_store_def set_add_def Let_def)

subsection \<open>The require hook\<close>

text \<open>
  Claim C9. When the resolved path is ineligible, or eligible but absent from the module
  cache, the hook returns the export value it was given and leaves the whole state as it
  was: no edge is recorded and no watch is added. Both cases are ordinary results.
\<close>

theorem require_short_circuit:
  assumes "\<not> isEligible (cfg s) modulePath \<or> cache s modulePath = None"
  shows "Module_require isEligible caller modulePath xports s = (xports, s)"
  using assms by (auto simp: Module_require_def)

theorem require_short_circuit_witness:
  "\<not> example_isEligible (cfg cyclic_example) ''/app/node_modules/m.js''
   \<and> Module_require example_isEligible \<lparr>mod_id = 1, mod_filename = ''/app/a.js'',
        exports = JNull, hot = None\<rparr> ''/app/node_modules/m.js'' (JNum 7) cyclic_example
      = (JNum 7, cyclic_example)
   \<and> example_isEligible (cfg cyclic_example) ''/app/c.js''
   \<and> cache cyclic_example ''/app/c.js'' = None
   \<and> Module_require example_isEligible \<lparr>mod_id = 1, mod_filename = ''/app/a.js'',
        exports = JNull, hot = None\<rparr> ''/app/c.js'' (JNum 7) cyclic_example
      = (JNum 7, cyclic_example)"
  using require_short_circuit [of example_isEligible cyclic_example "''/app/node_modules/m.js''"
          "\<lparr>mod_id = 1, mod_filename = ''/app/a.js'', exports = JNull, hot = None\<rparr>" "JNum 7"]
        require_short_circuit [of example_isEligible cyclic_example "''/app/c.js''"
          "\<lparr>mod_id = 1, mod_filename = ''/app/a.js'', exports = JNull, hot = None\<rparr>" "JNum 7"]
  by (simp add: example_isEligible_def cyclic_example_def)

lemma fuel_positive:
  assumes "map_of (registry (world r)) (filename entry) = Some entry"
    "filename entry \<notin> set (reloaded r)" "card (keys r - set (reloaded r)) \<le> n"
  shows "\<exists>m. n = Suc m \<and> card (keys (reload_visit entry r) - set (reloaded (reload_visit entry r))) \<le> m"
proof -
  have fin: "finite (keys r)" by (simp add: keys_def)
  have k: "filename entry \<in> keys r" using assms(1) by (rule lookup_in_keys)
  then have "filename entry \<in> keys r - set (reloaded r)" using assms(2) by simp
  then have "card (keys r - set (reloaded r)) > 0" using fin by (metis card_gt_0_iff finite_Diff empty_iff)
  then obtain m where m: "n = Suc m" using assms(3) by (cases n) auto
  have k1: "keys (reload_visit entry r) = keys r"
    using k by (auto simp: keys_def visit_registry AList.dom_update)
  have "card (keys r - insert (filename entry) (set (reloaded r))) \<le> m"
    using card_step[OF fin k assms(2)] assms(3) m by simp
  then show ?thesis using m k1 by (simp add: visit_reloaded set_set_add)
qed

subsection \<open>The decision rule of the propagation\<close>

lemma reload_dependants_recurse_into: "reload_dependants n ds r = recurse_into n ds r"
  by (induction ds arbitrary: r) (simp_all add: visit_dependant_def split: option.splits)

lemma reload_roots_append:
  "reload_roots acc g (xs @ ys)
     = reload_roots acc g xs
       @ reload_roots acc (fold (\<lambda>f g. fst (removeDependencies g f)) xs g) ys"
  by (induction xs arbitrary: g) (simp_all add: Let_def)

lemma reload_roots_subset: "set (reload_roots acc g xs) \<subseteq> set xs"
  by (induction xs arbitrary: g) (auto simp: Let_def)

lemma run_frameI:
  assumes "reloaded r' = reloaded r @ new" "distinct new" "set new \<inter> set (reloaded r) = {}"
    "set new \<subseteq> keys r"
    "steps r' = steps r @ concat (map visit_log new)"
    "acceptees r' = acceptees r
       @ reload_roots (accepted_at (registry (world r))) (graph (world r)) new"
    "graph (world r') = fold (\<lambda>f g. fst (removeDependencies g f)) new (graph (world r))"
    "\<And>f. f \<in> set new \<Longrightarrow> cache (world r') f = None"
    "\<And>f. f \<in> set new \<Longrightarrow> map_of (registry (world r')) f
                          = map_option run_store (map_of (registry (world r)) f)"
    "\<And>f. f \<notin> set new \<Longrightarrow> cache (world r') f = cache (world r) f"
    "\<And>f. f \<notin> set new \<Longrightarrow> map_of (registry (world r')) f = map_of (registry (world r)) f"
  shows "run_frame new r r'"
  unfolding run_frame_def list_all_iff using assms by blast

lemma run_frame_reloaded: "run_frame new r r' \<Longrightarrow> reloaded r' = reloaded r @ new"
  unfolding run_frame_def by blast

lemma run_frame_distinct: "run_frame new r r' \<Longrightarrow> distinct new \<and> set new \<inter> set (reloaded r) = {}"
  unfolding run_frame_def by blast

lemma run_frame_keys: "run_frame new r r' \<Longrightarrow> set new \<subseteq> keys r"
  unfolding run_frame_def by blast

lemma run_frame_steps: "run_frame new r r' \<Longrightarrow> steps r' = steps r @ concat (map visit_log new)"
  unfolding run_frame_def by blast

lemma run_frame_acceptees:
  "run_frame new r r' \<Longrightarrow>
     acceptees r' = acceptees r
       @ reload_roots (accepted_at (registry (world r))) (graph (world r)) new"
  unfolding run_frame_def by blast

lemma run_frame_graph:
  "run_frame new r r' \<Longrightarrow>
     graph (world r') = fold (\<lambda>f g. fst (removeDependencies g f)) new (graph (world r))"
  unfolding run_frame_def by blast

lemma run_frame_visited:
  "run_frame new r r' \<Longrightarrow> f \<in> set new \<Longrightarrow>
     cache (world r') f = None
     \<and> map_of (registry (world r')) f = map_option run_store (map_of (registry (world r)) f)"
  unfolding run_frame_def list_all_iff by blast

lemma run_frame_other:
  "run_frame new r r' \<Longrightarrow> f \<notin> set new \<Longrightarrow>
     cache (world r') f = cache (world r) f
     \<and> map_of (registry (world r')) f = map_of (registry (world r)) f"
  unfolding run_frame_def by blast

lemma run_frame_accepted:
  assumes "run_frame new r r'"
  shows "accepted_at (registry (world r')) = accepted_at (registry (world r))"
proof
  fix f
  show "accepted_at (registry (world r')) f = accepted_at (registry (world r)) f"
  proof (cases "f \<in> set new")
    case True
    then show ?thesis using run_frame_visited[OF assms True]
      by (cases "map_of (registry (world r)) f") (simp_all add: accepted_at_def)
  next
    case False
    then show ?thesis using run_frame_other[OF assms False] by (simp add: accepted_at_def)
  qed
qed

lemma run_frame_inv:
  assumes "run_frame new r r'" "set (acceptees r) \<subseteq> set (reloaded r)"
  shows "set (acceptees r') \<subseteq> set (reloaded r')"
  using assms(2) run_frame_acceptees[OF assms(1)] run_frame_reloaded[OF assms(1)]
    reload_roots_subset[of "accepted_at (registry (world r))" "graph (world r)" new]
  by auto

lemma run_frame_nil: "run_frame [] r r"
  by (rule run_frameI) simp_all

lemma run_frame_trans:
  assumes a: "run_frame new1 r r1" and b: "run_frame new2 r1 r2" and k: "keys r1 = keys r"
  shows "run_frame (new1 @ new2) r r2"
proof (rule run_frameI)
  note d1 = run_frame_distinct[OF a] and d2 = run_frame_distinct[OF b]
  note r1 = run_frame_reloaded[OF a] and r2 = run_frame_reloaded[OF b]
  have disj: "set new1 \<inter> set new2 = {}" using d2 r1 by auto
  show "reloaded r2 = reloaded r @ new1 @ new2" using r1 r2 by simp
  show "distinct (new1 @ new2)" using d1 d2 disj by simp
  show "set (new1 @ new2) \<inter> set (reloaded r) = {}" using d1 d2 r1 by auto
  show "set (new1 @ new2) \<subseteq> keys r" using run_frame_keys[OF a] run_frame_keys[OF b] k by simp
  show "steps r2 = steps r @ concat (map visit_log (new1 @ new2))"
    using run_frame_steps[OF a] run_frame_steps[OF b] by simp
  show "acceptees r2 = acceptees r
       @ reload_roots (accepted_at (registry (world r))) (graph (world r)) (new1 @ new2)"
    using run_frame_acceptees[OF a] run_frame_acceptees[OF b] run_frame_accepted[OF a]
      run_frame_graph[OF a]
    by (simp add: reload_roots_append)
  show "graph (world r2) = fold (\<lambda>f g. fst (removeDependencies g f)) (new1 @ new2) (graph (world r))"
    using run_frame_graph[OF a] run_frame_graph[OF b] by simp
  show "cache (world r2) f = None" if "f \<in> set (new1 @ new2)" for f
  proof (cases "f \<in> set new2")
    case True
    then show ?thesis using run_frame_visited[OF b] by blast
  next
    case False
    then have "f \<in> set new1" using that by simp
    then show ?thesis using run_frame_visited[OF a] run_frame_other[OF b False] by simp
  qed
  show "map_of (registry (world r2)) f = map_option run_store (map_of (registry (world r)) f)"
    if "f \<in> set (new1 @ new2)" for f
  proof (cases "f \<in> set new2")
    case True
    then have "f \<notin> set new1" using disj by blast
    then show ?thesis using run_frame_visited[OF b True] run_frame_other[OF a] by simp
  next
    case False
    then have "f \<in> set new1" using that by simp
    then show ?thesis using run_frame_visited[OF a] run_frame_other[OF b False] by simp
  qed
  show "cache (world r2) f = cache (world r) f" if "f \<notin> set (new1 @ new2)" for f
    using that run_frame_other[OF a, of f] run_frame_other[OF b, of f] by simp
  show "map_of (registry (world r2)) f = map_of (registry (world r)) f" if "f \<notin> set (new1 @ new2)" for f
    using that run_frame_other[OF a, of f] run_frame_other[OF b, of f] by simp
qed

lemma visit_cache: "cache (world (reload_visit e r)) = (cache (world r))(filename e := None)"
  by (simp add: reload_visit_def Let_def split: prod.splits)

lemma visit_frame:
  assumes "map_of (registry (world r)) (filename e) = Some e" "filename e \<notin> set (reloaded r)"
  shows "run_frame [filename e] r
           ((reload_visit e r)\<lparr>acceptees := acceptees r
              @ reload_roots (accepted_at (registry (world r))) (graph (world r)) [filename e]\<rparr>)"
    (is "run_frame _ _ ?r'")
proof (rule run_frameI)
  show "reloaded ?r' = reloaded r @ [filename e]"
    using assms(2) by (simp add: visit_reloaded set_add_def)
  show "set [filename e] \<subseteq> keys r" using lookup_in_keys[OF assms(1)] by simp
  show "steps ?r' = steps r @ concat (map visit_log [filename e])"
    by (simp add: visit_steps visit_log_def)
  show "graph (world ?r')
      = fold (\<lambda>f g. fst (removeDependencies g f)) [filename e] (graph (world r))"
    by (simp add: visit_graph)
  show "map_of (registry (world ?r')) f
      = map_option run_store (map_of (registry (world r)) f)" if "f \<in> set [filename e]" for f
    using that assms(1) by (simp add: visit_registry AList.update_conv')
  show "map_of (registry (world ?r')) f = map_of (registry (world r)) f"
    if "f \<notin> set [filename e]" for f
    using that by (simp add: visit_registry AList.update_conv')
qed (use assms in \<open>simp_all add: visit_cache\<close>)

lemma reload_roots_single:
  assumes "map_of (registry (world r)) (filename e) = Some e"
  shows "reload_roots (accepted_at (registry (world r))) (graph (world r)) [filename e]
     = (if accepted e \<or> getDependantsOf (graph (world (reload_visit e r))) (filename e) = []
        then [filename e] else [])"
  using assms by (simp add: accepted_at_def visit_graph Let_def)

lemma reload_frame:
  shows "reload n entry r = Some r' \<Longrightarrow> registry_ok (registry (world r)) \<Longrightarrow>
      map_of (registry (world r)) (filename entry) = Some entry \<Longrightarrow>
      filename entry \<notin> set (reloaded r) \<Longrightarrow>
      set (acceptees r) \<subseteq> set (reloaded r) \<Longrightarrow>
      registry_ok (registry (world r')) \<and> keys r' = keys r
      \<and> (\<exists>new. run_frame (filename entry # new) r r')"
    and "reload_dependants n ds r = Some r' \<Longrightarrow> registry_ok (registry (world r)) \<Longrightarrow>
      set (acceptees r) \<subseteq> set (reloaded r) \<Longrightarrow>
      registry_ok (registry (world r')) \<and> keys r' = keys r \<and> (\<exists>new. run_frame new r r')"
proof (induction n entry r and n ds r arbitrary: r' and r' rule: reload_reload_dependants.induct)
  case (1 entry r r')
  then show ?case by simp
next
  case (2 n entry r r')
  let ?f = "filename entry"
  let ?r1 = "reload_visit entry r"
  let ?roots = "reload_roots (accepted_at (registry (world r))) (graph (world r)) [?f]"
  have p1: "run_post r ?r1" using "2.prems"(2,3,4) by (rule visit_post)
  have f1: "run_frame [?f] r (?r1\<lparr>acceptees := acceptees r @ ?roots\<rparr>)"
    using "2.prems"(3,4) by (rule visit_frame)
  note ok1 = run_post_ok[OF p1] and k1 = run_post_keys[OF p1]
  note rs = reload_roots_single[OF "2.prems"(3)]
  have notacc: "?f \<notin> set (acceptees r)" using "2.prems"(4,5) by blast
  show ?case
  proof (cases "accepted entry \<or> getDependantsOf (graph (world ?r1)) ?f = []")
    case True
    then have "r' = ?r1\<lparr>acceptees := set_add ?f (acceptees ?r1)\<rparr>"
      using "2.prems"(1) by (simp add: Let_def)
    then have e: "r' = ?r1\<lparr>acceptees := acceptees r @ ?roots\<rparr>"
      using True notacc unfolding rs by (simp add: visit_acceptees set_add_def)
    have "run_frame (?f # []) r r'" using f1 e by simp
    then have "\<exists>new. run_frame (?f # new) r r'" by (rule exI)
    moreover have "registry_ok (registry (world r'))" "keys r' = keys r"
      using ok1 k1 e by (simp_all add: keys_def)
    ultimately show ?thesis by blast
  next
    case False
    then have l: "reload_dependants n (getDependantsOf (graph (world ?r1)) ?f) ?r1 = Some r'"
      using "2.prems"(1) by (simp add: Let_def)
    have "?r1\<lparr>acceptees := acceptees r @ ?roots\<rparr> = ?r1"
      using False unfolding rs by (simp add: visit_acceptees[symmetric])
    then have f1': "run_frame [?f] r ?r1" using f1 by simp
    have inv1: "set (acceptees ?r1) \<subseteq> set (reloaded ?r1)"
      using f1' "2.prems"(5) by (rule run_frame_inv)
    from "2.IH"[OF refl refl False l ok1 inv1]
    obtain new where n: "registry_ok (registry (world r'))" "keys r' = keys ?r1" "run_frame new ?r1 r'"
      by blast
    have "run_frame ([?f] @ new) r r'" using f1' n(3) k1 by (rule run_frame_trans)
    then show ?thesis using n(1,2) k1 by auto
  qed
next
  case (3 n r r')
  then show ?case using run_frame_nil by auto
next
  case (4 n dependant rest r r')
  show ?case
  proof (cases "map_of (registry (world r)) dependant")
    case None
    then have "reload_dependants n rest r = Some r'" using "4.prems"(1) by simp
    from "4.IH"(1)[OF None this "4.prems"(2,3)] show ?thesis .
  next
    case (Some de)
    have fde: "filename de = dependant" using registry_ok_lookup "4.prems"(2) Some by blast
    show ?thesis
    proof (cases "filename de \<in> set (reloaded r)")
      case True
      then have "reload_dependants n rest r = Some r'" using "4.prems"(1) Some by simp
      from "4.IH"(2)[OF Some True this "4.prems"(2,3)] show ?thesis .
    next
      case False
      from "4.prems"(1) Some False obtain r1 where r1: "reload n de r = Some r1"
        "reload_dependants n rest r1 = Some r'" by (auto split: option.splits)
      have cur: "map_of (registry (world r)) (filename de) = Some de" using Some fde by simp
      from "4.IH"(3)[OF Some False r1(1) "4.prems"(2) cur False "4.prems"(3)]
      obtain new1 where a: "registry_ok (registry (world r1))" "keys r1 = keys r"
        "run_frame (filename de # new1) r r1" by blast
      have inv1: "set (acceptees r1) \<subseteq> set (reloaded r1)"
        using a(3) "4.prems"(3) by (rule run_frame_inv)
      from "4.IH"(4)[OF Some False r1(1) r1(2) a(1) inv1]
      obtain new2 where b: "registry_ok (registry (world r'))" "keys r' = keys r1"
        "run_frame new2 r1 r'" by blast
      have "run_frame ((filename de # new1) @ new2) r r'" using a(3) b(3) a(2) by (rule run_frame_trans)
      then show ?thesis using a(2) b(1,2) by auto
    qed
  qed
qed


lemma step_file_visit_log: "step_file ` set (concat (map visit_log xs)) = set xs"
  by (induction xs) (auto simp: visit_log_def)

text \<open>
  Claim C1, as amended. Take any call of \<open>reload\<close> the program can make: the entry is
  the registered one of its file name, it is not yet in \<open>reloaded\<close>, and the acceptees
  so far are among the reloaded entries (both sets are empty for the top-level call).
  \<open>dependants\<close> is what \<open>getDependantsOf\<close> returns once the entry's own outgoing
  edges are removed. With enough fuel the call returns, and in its result the entry's
  file name is an acceptee if and only if the entry is accepted or \<open>dependants\<close> is
  empty. In that case the call adds just this file name and visits nothing else: its
  result is the state after the entry's own reload with the file name appended to the
  acceptees; with no dependants and no earlier acceptee the acceptees are the singleton
  of the file name, whatever the accepted flag. Otherwise the file name is not added and
  the call is the loop over \<open>dependants\<close> that calls \<open>reload\<close> on the entry of every
  dependant that has a registry entry and is not yet visited, each call starting from
  the state the previous one left; every such dependant is among the entries the call
  reloaded. Those entries, \<open>new\<close>, were each logged, evicted from the cache and stashed
  exactly once, in the order of \<open>reloaded\<close>; the acceptees gained are exactly the
  entries among them that are accepted or had no dependants when they were reloaded.
  A dependant without a registry entry is skipped: it is not among the reloaded entries,
  it is in \<open>reloaded\<close> and in the acceptees only if it was there before the call, its
  cache slot is untouched, it still has no registry entry and no step of the call
  concerns it.
\<close>

theorem reload_decision_rule:
  assumes ok: "registry_ok (registry (world r))"
    and cur: "map_of (registry (world r)) (filename entry) = Some entry"
    and new: "filename entry \<notin> set (reloaded r)"
    and inv: "set (acceptees r) \<subseteq> set (reloaded r)"
    and fuel: "card (keys r - set (reloaded r)) \<le> n"
    and deps: "dependants = getDependantsOf
                 (fst (removeDependencies (graph (world r)) (filename entry))) (filename entry)"
  shows "\<exists>r' new. reload n entry r = Some r'
     \<and> (filename entry \<in> set (acceptees r') \<longleftrightarrow> accepted entry \<or> dependants = [])
     \<and> (accepted entry \<or> dependants = [] \<longrightarrow>
           acceptees r' = acceptees r @ [filename entry]
           \<and> reloaded r' = reloaded r @ [filename entry])
     \<and> (dependants = [] \<and> acceptees r = [] \<longrightarrow> acceptees r' = [filename entry])
     \<and> (\<not> (accepted entry \<or> dependants = []) \<longrightarrow>
           (\<forall>d \<in> set dependants. d \<in> keys r \<longrightarrow> d \<in> set (reloaded r')))
     \<and> (accepted entry \<or> dependants = [] \<longrightarrow>
           new = []
           \<and> r' = (reload_visit entry r)\<lparr>acceptees := acceptees r @ [filename entry]\<rparr>)
     \<and> (\<not> (accepted entry \<or> dependants = []) \<longrightarrow>
           Some r' = recurse_into (n - 1) dependants (reload_visit entry r)
           \<and> (\<forall>d \<in> set dependants. d \<in> keys r \<and> d \<notin> set (reloaded r) \<longrightarrow>
                 d \<in> set (filename entry # new)))
     \<and> run_frame (filename entry # new) r r'
     \<and> (\<forall>d \<in> set dependants. d \<notin> keys r \<longrightarrow>
           d \<notin> set (filename entry # new)
           \<and> (d \<in> set (reloaded r') \<longleftrightarrow> d \<in> set (reloaded r))
           \<and> (d \<in> set (acceptees r') \<longleftrightarrow> d \<in> set (acceptees r))
           \<and> cache (world r') d = cache (world r) d
           \<and> map_of (registry (world r')) d = None
           \<and> d \<notin> step_file ` set (drop (length (steps r)) (steps r')))"
proof -
  let ?f = "filename entry"
  let ?r1 = "reload_visit entry r"
  let ?acc = "accepted_at (registry (world r))"
  obtain m where m: "n = Suc m" and c1: "card (keys ?r1 - set (reloaded ?r1)) \<le> m"
    using fuel_positive[OF cur new fuel] by blast
  have d: "dependants = getDependantsOf (graph (world ?r1)) ?f" by (simp add: deps visit_graph)
  have notacc: "?f \<notin> set (acceptees r)" using inv new by blast
  from reload_total_aux(1)[OF ok cur new fuel]
  obtain r' where r': "reload n entry r = Some r'" "run_post r r'" by blast
  from reload_frame(1)[OF r'(1) ok cur new inv]
  obtain new where fr: "run_frame (?f # new) r r'" and k: "keys r' = keys r" by blast
  note rel = run_frame_reloaded[OF fr] and dis = run_frame_distinct[OF fr]
    and sub = run_frame_keys[OF fr]
  have fnew: "?f \<notin> set new" using dis by simp
  have roots: "acceptees r' = acceptees r
      @ (if accepted entry \<or> dependants = [] then [?f] else [])
      @ reload_roots ?acc (fst (removeDependencies (graph (world r)) ?f)) new"
    using run_frame_acceptees[OF fr] cur by (simp add: accepted_at_def deps Let_def)
  have rsub: "set (reload_roots ?acc (fst (removeDependencies (graph (world r)) ?f)) new) \<subseteq> set new"
    by (rule reload_roots_subset)
  have c_iff: "?f \<in> set (acceptees r') \<longleftrightarrow> accepted entry \<or> dependants = []"
    using roots rsub fnew notacc by auto
  have c_acc: "accepted entry \<or> dependants = [] \<longrightarrow>
           new = [] \<and> r' = ?r1\<lparr>acceptees := acceptees r @ [?f]\<rparr>"
  proof
    assume t: "accepted entry \<or> dependants = []"
    then have "reload n entry r = Some (?r1\<lparr>acceptees := set_add ?f (acceptees ?r1)\<rparr>)"
      using m d by (simp add: Let_def)
    moreover have "set_add ?f (acceptees ?r1) = acceptees r @ [?f]"
      using notacc by (simp add: visit_acceptees set_add_def)
    ultimately have e: "r' = ?r1\<lparr>acceptees := acceptees r @ [?f]\<rparr>" using r'(1) by simp
    then have "reloaded r' = reloaded r @ [?f]" using new by (simp add: visit_reloaded set_add_def)
    then have "new = []" using rel by simp
    then show "new = [] \<and> r' = ?r1\<lparr>acceptees := acceptees r @ [?f]\<rparr>" using e by simp
  qed
  have c_acc': "accepted entry \<or> dependants = [] \<longrightarrow>
           acceptees r' = acceptees r @ [?f] \<and> reloaded r' = reloaded r @ [?f]"
    using c_acc rel roots by auto
  have c_single: "dependants = [] \<and> acceptees r = [] \<longrightarrow> acceptees r' = [?f]"
    using c_acc' by simp
  have c_rec: "\<not> (accepted entry \<or> dependants = []) \<longrightarrow>
           Some r' = recurse_into (n - 1) dependants ?r1
           \<and> (\<forall>d \<in> set dependants. d \<in> keys r \<longrightarrow> d \<in> set (reloaded r'))"
  proof
    assume f: "\<not> (accepted entry \<or> dependants = [])"
    have p1: "run_post r ?r1" using ok cur new by (rule visit_post)
    have ok1: "registry_ok (registry (world ?r1))" using p1 by (rule run_post_ok)
    from reload_total_aux(2)[OF ok1 c1, of dependants]
    obtain r2 where r2: "reload_dependants m dependants ?r1 = Some r2"
      "set dependants \<inter> keys ?r1 \<subseteq> set (reloaded r2)" by blast
    have eq: "reload n entry r = reload_dependants m dependants ?r1"
      using f m d by (simp add: Let_def)
    then have "r2 = r'" using r2(1) r'(1) by simp
    moreover have "keys ?r1 = keys r" using p1 by (rule run_post_keys)
    ultimately have "\<forall>d \<in> set dependants. d \<in> keys r \<longrightarrow> d \<in> set (reloaded r')"
      using r2(2) by blast
    moreover have "Some r' = recurse_into (n - 1) dependants ?r1"
      using eq r'(1) m by (simp add: reload_dependants_recurse_into)
    ultimately show "Some r' = recurse_into (n - 1) dependants ?r1
           \<and> (\<forall>d \<in> set dependants. d \<in> keys r \<longrightarrow> d \<in> set (reloaded r'))" by simp
  qed
  have c_rec': "\<not> (accepted entry \<or> dependants = []) \<longrightarrow>
           (\<forall>d \<in> set dependants. d \<in> keys r \<and> d \<notin> set (reloaded r) \<longrightarrow> d \<in> set (?f # new))"
    using c_rec rel by auto
  have c_skip: "\<forall>d \<in> set dependants. d \<notin> keys r \<longrightarrow>
           d \<notin> set (?f # new)
           \<and> (d \<in> set (reloaded r') \<longleftrightarrow> d \<in> set (reloaded r))
           \<and> (d \<in> set (acceptees r') \<longleftrightarrow> d \<in> set (acceptees r))
           \<and> cache (world r') d = cache (world r) d
           \<and> map_of (registry (world r')) d = None
           \<and> d \<notin> step_file ` set (drop (length (steps r)) (steps r'))"
  proof (intro ballI impI)
    fix d assume "d \<in> set dependants" and nk: "d \<notin> keys r"
    have n1: "d \<notin> set (?f # new)" using nk sub by blast
    have n2: "d \<in> set (reloaded r') \<longleftrightarrow> d \<in> set (reloaded r)" using n1 rel by auto
    have "set (acceptees r') \<subseteq> set (acceptees r) \<union> set (?f # new)"
      using roots rsub by auto
    moreover have "set (acceptees r) \<subseteq> set (acceptees r')" using roots by auto
    ultimately have n3: "d \<in> set (acceptees r') \<longleftrightarrow> d \<in> set (acceptees r)" using n1 by blast
    have n4: "cache (world r') d = cache (world r) d"
      and n5': "map_of (registry (world r')) d = map_of (registry (world r)) d"
      using run_frame_other[OF fr n1] by simp_all
    have "map_of (registry (world r)) d = None"
      using nk by (simp add: keys_def map_of_eq_None_iff)
    then have n5: "map_of (registry (world r')) d = None" using n5' by simp
    have "drop (length (steps r)) (steps r') = concat (map visit_log (?f # new))"
      using run_frame_steps[OF fr] by simp
    then have n6: "d \<notin> step_file ` set (drop (length (steps r)) (steps r'))"
      using n1 step_file_visit_log[of "?f # new"] by simp
    show "d \<notin> set (?f # new)
           \<and> (d \<in> set (reloaded r') \<longleftrightarrow> d \<in> set (reloaded r))
           \<and> (d \<in> set (acceptees r') \<longleftrightarrow> d \<in> set (acceptees r))
           \<and> cache (world r') d = cache (world r) d
           \<and> map_of (registry (world r')) d = None
           \<and> d \<notin> step_file ` set (drop (length (steps r)) (steps r'))"
      using n1 n2 n3 n4 n5 n6 by blast
  qed
  have "reload n entry r = Some r'
     \<and> (?f \<in> set (acceptees r') \<longleftrightarrow> accepted entry \<or> dependants = [])
     \<and> (accepted entry \<or> dependants = [] \<longrightarrow>
           acceptees r' = acceptees r @ [?f] \<and> reloaded r' = reloaded r @ [?f])
     \<and> (dependants = [] \<and> acceptees r = [] \<longrightarrow> acceptees r' = [?f])
     \<and> (\<not> (accepted entry \<or> dependants = []) \<longrightarrow>
           (\<forall>d \<in> set dependants. d \<in> keys r \<longrightarrow> d \<in> set (reloaded r')))
     \<and> (accepted entry \<or> dependants = [] \<longrightarrow>
           new = [] \<and> r' = ?r1\<lparr>acceptees := acceptees r @ [?f]\<rparr>)
     \<and> (\<not> (accepted entry \<or> dependants = []) \<longrightarrow>
           Some r' = recurse_into (n - 1) dependants ?r1
           \<and> (\<forall>d \<in> set dependants. d \<in> keys r \<and> d \<notin> set (reloaded r) \<longrightarrow>
                 d \<in> set (?f # new)))
     \<and> run_frame (?f # new) r r'
     \<and> (\<forall>d \<in> set dependants. d \<notin> keys r \<longrightarrow>
           d \<notin> set (?f # new)
           \<and> (d \<in> set (reloaded r') \<longleftrightarrow> d \<in> set (reloaded r))
           \<and> (d \<in> set (acceptees r') \<longleftrightarrow> d \<in> set (acceptees r))
           \<and> cache (world r') d = cache (world r) d
           \<and> map_of (registry (world r')) d = None
           \<and> d \<notin> step_file ` set (drop (length (steps r)) (steps r')))"
    using r'(1) c_iff c_acc' c_single c_rec c_acc c_rec' fr c_skip by blast
  then show ?thesis by blast
qed

theorem reload_decision_rule_witness:
  "registry_ok (registry (world (fresh_run cyclic_example)))
   \<and> map_of (registry (world (fresh_run cyclic_example))) (filename (new_entry 1 ''/app/a.js''))
       = Some (new_entry 1 ''/app/a.js'')
   \<and> filename (new_entry 1 ''/app/a.js'') \<notin> set (reloaded (fresh_run cyclic_example))
   \<and> set (acceptees (fresh_run cyclic_example)) \<subseteq> set (reloaded (fresh_run cyclic_example))
   \<and> card (keys (fresh_run cyclic_example) - set (reloaded (fresh_run cyclic_example))) \<le> 2
   \<and> [''/app/b.js''] = getDependantsOf
         (fst (removeDependencies (graph (world (fresh_run cyclic_example)))
                (filename (new_entry 1 ''/app/a.js'')))) (filename (new_entry 1 ''/app/a.js''))
   \<and> (\<exists>r' new. reload 2 (new_entry 1 ''/app/a.js'') (fresh_run cyclic_example) = Some r'
         \<and> ''/app/a.js'' \<notin> set (acceptees r') \<and> ''/app/b.js'' \<in> set (reloaded r')
         \<and> ''/app/b.js'' \<in> set (''/app/a.js'' # new)
         \<and> Some r' = recurse_into 1 [''/app/b.js'']
                        (reload_visit (new_entry 1 ''/app/a.js'') (fresh_run cyclic_example))
         \<and> run_frame (''/app/a.js'' # new) (fresh_run cyclic_example) r')
   \<and> [] = getDependantsOf
         (fst (removeDependencies (graph (world (fresh_run (cyclic_example\<lparr>graph := []\<rparr>))))
                (filename (new_entry 1 ''/app/a.js'')))) (filename (new_entry 1 ''/app/a.js''))
   \<and> (\<exists>r'. reload 2 (new_entry 1 ''/app/a.js'') (fresh_run (cyclic_example\<lparr>graph := []\<rparr>)) = Some r'
         \<and> acceptees r' = [''/app/a.js'']
         \<and> r' = (reload_visit (new_entry 1 ''/app/a.js'')
                    (fresh_run (cyclic_example\<lparr>graph := []\<rparr>)))\<lparr>acceptees := [''/app/a.js'']\<rparr>)
   \<and> registry_ok (registry (world (fresh_run runner_example)))
   \<and> map_of (registry (world (fresh_run runner_example))) (filename (new_entry 1 ''/app/test.js''))
       = Some (new_entry 1 ''/app/test.js'')
   \<and> card (keys (fresh_run runner_example) - set (reloaded (fresh_run runner_example))) \<le> 1
   \<and> [''/app/node_modules/runner/index.js''] = getDependantsOf
         (fst (removeDependencies (graph (world (fresh_run runner_example)))
                (filename (new_entry 1 ''/app/test.js'')))) (filename (new_entry 1 ''/app/test.js''))
   \<and> ''/app/node_modules/runner/index.js'' \<notin> keys (fresh_run runner_example)
   \<and> (\<exists>r' new. reload 1 (new_entry 1 ''/app/test.js'') (fresh_run runner_example) = Some r'
         \<and> ''/app/test.js'' \<notin> set (acceptees r')
         \<and> ''/app/node_modules/runner/index.js'' \<notin> set (''/app/test.js'' # new)
         \<and> ''/app/node_modules/runner/index.js'' \<notin> set (reloaded r')
         \<and> ''/app/node_modules/runner/index.js'' \<notin> set (acceptees r')
         \<and> ''/app/node_modules/runner/index.js''
             \<notin> step_file ` set (drop (length (steps (fresh_run runner_example))) (steps r')))"
  using reload_decision_rule [of "fresh_run cyclic_example" "new_entry 1 ''/app/a.js''" 2
          "[''/app/b.js'']"]
        reload_decision_rule [of "fresh_run (cyclic_example\<lparr>graph := []\<rparr>)"
          "new_entry 1 ''/app/a.js''" 2 "[]"]
        reload_decision_rule [of "fresh_run runner_example" "new_entry 1 ''/app/test.js''" 1
          "[''/app/node_modules/runner/index.js'']"]
  by (simp add: cyclic_example_def runner_example_def initial_state_def fresh_run_def
      new_entry_def registry_ok_def keys_def removeDependencies_def getDependantsOf_def) blast

text \<open>
  The only dependant of the changed test file has no registry entry: \<open>reload\<close> does
  not recurse into it, and the acceptee set stays empty.
\<close>

theorem reload_decision_rule_counterexample:
  "map_of (registry runner_example) ''/app/test.js'' = Some (new_entry 1 ''/app/test.js'')
   \<and> \<not> accepted (new_entry 1 ''/app/test.js'')
   \<and> getDependantsOf (fst (removeDependencies (graph runner_example) ''/app/test.js''))
         ''/app/test.js''
       = [''/app/node_modules/runner/index.js'']
   \<and> map_of (registry runner_example) ''/app/node_modules/runner/index.js'' = None
   \<and> map_option (\<lambda>r. (acceptees r, reloaded r))
         (reload 2 (new_entry 1 ''/app/test.js'') (fresh_run runner_example))
       = Some ([], [''/app/test.js''])"
  by (simp add: runner_example_def initial_state_def fresh_run_def new_entry_def reload_visit_def
      numeral_eq_Suc removeDependencies_def getDependantsOf_def run_store_def set_add_def Let_def)

subsection \<open>The chain A requires B requires C\<close>




text \<open>The chain with A as the entry point, evaluated.\<close>

lemma chain_example_record:
  "chain_example =
    \<lparr>cfg = default_cfg,
     graph = [(''/app/b.js'', ''/app/c.js'')],
     registry = [(''/app/a.js'', new_entry 1 ''/app/a.js''), (''/app/b.js'', new_entry 2 ''/app/b.js''),
           (''/app/c.js'', new_entry 3 ''/app/c.js'')],
     cache = [''/app/a.js'' \<mapsto> example_module 1 ''/app/a.js'', ''/app/b.js'' \<mapsto> example_module 2 ''/app/b.js'',
        ''/app/c.js'' \<mapsto> example_module 3 ''/app/c.js''],
     watched = {''/app/b.js'', ''/app/c.js''},
     mainModule = Some (example_module 1 ''/app/a.js'')\<rparr>"
  by (simp add: chain_example_def chain_state_def initial_state_def Module_load_before_def loader_cache_def
      injectFile_def registerFile_def Module_require_def addDependency_def new_entry_def Let_def
      example_module_def example_isEligible_def default_cfg_def)



subsection \<open>The change handler\<close>

text \<open>
  Claim C4, as amended. For a change of a registered file the handler runs \<open>reload\<close>
  on that file's entry and then re-requires every acceptee exactly once, in the order
  of the acceptee set, each time with the module stored in the entry of the changed file
  as the caller; the entry of the acceptee itself is not consulted.
\<close>

theorem change_requires_from_changed_entry:
  assumes "registry_ok (registry s)" and "map_of (registry s) file = Some entry"
    and "length (registry s) < n"
  shows "\<exists>r. reload n entry (fresh_run s) = Some r
           \<and> on_change n file s = Some (world r, map (Pair (owner_mod entry)) (acceptees r))
           \<and> distinct (acceptees r)"
proof -
  let ?r = "fresh_run s"
  have f: "filename entry = file" using registry_ok_lookup assms(1,2) by blast
  have w: "world ?r = s" "reloaded ?r = []" "acceptees ?r = []" by (simp_all add: fresh_run_def)
  note c = fresh_run_fuel[OF assms(3)]
  from reload_total_aux(1)[of ?r entry n] assms f w c
  obtain r where r: "reload n entry ?r = Some r" "run_post ?r r" by auto
  have "distinct (acceptees r)" using run_post_distinct[OF r(2)] w by simp
  moreover have "on_change n file s = Some (world r, map (Pair (owner_mod entry)) (acceptees r))"
    using assms(2) r(1) by (simp add: on_change_def)
  ultimately show ?thesis using r(1) by blast
qed

theorem change_requires_from_changed_entry_witness:
  "registry_ok (registry chain_example)
   \<and> map_of (registry chain_example) ''/app/c.js'' = Some (new_entry 3 ''/app/c.js'')
   \<and> length (registry chain_example) < 4
   \<and> (\<exists>r. reload 4 (new_entry 3 ''/app/c.js'') (fresh_run chain_example) = Some r
          \<and> on_change 4 ''/app/c.js'' chain_example
              = Some (world r, map (Pair (owner_mod (new_entry 3 ''/app/c.js''))) (acceptees r))
          \<and> distinct (acceptees r))"
  using change_requires_from_changed_entry [of chain_example "''/app/c.js''" "new_entry 3 ''/app/c.js''" 4]
  by (simp add: chain_example_record registry_ok_def new_entry_def)

text \<open>
  A change of C in the chain re-requires the acceptee B with module 3, the module of C's
  entry, as the caller, while B's own entry holds module 2, before and after the reload.
\<close>

theorem change_requires_counterexample:
  "map_of (registry chain_example) ''/app/c.js'' = Some (new_entry 3 ''/app/c.js'')
   \<and> map_option snd (on_change 4 ''/app/c.js'' chain_example) = Some [(3, ''/app/b.js'')]
   \<and> map_option owner_mod (map_of (registry chain_example) ''/app/b.js'') = Some 2
   \<and> map_option (\<lambda>res. map_option owner_mod (map_of (registry (fst res)) ''/app/b.js''))
         (on_change 4 ''/app/c.js'' chain_example) = Some (Some 2)"
  unfolding chain_example_record
  by (simp add: on_change_def fresh_run_def new_entry_def reload_visit_def example_module_def
      numeral_eq_Suc removeDependencies_def getDependantsOf_def run_store_def set_add_def Let_def)

subsection \<open>Requires of the main module\<close>

lemma addDependency_set: "set (addDependency a b g) = insert (a, b) (set g)"
  by (auto simp: addDependency_def)

text \<open>
  Claim C10, as amended. For a require call whose resolved dependency is eligible and
  cached: when the caller is the main module object, the hook adds the dependency's path
  to the watcher and changes nothing else, so no edge is recorded. A graph without an
  edge from the main module's file name stays so after a call whose caller is the main
  module object or carries another file name. (The hook compares module objects, the
  graph holds file names: a second module object of the main module's file is not
  covered.)
\<close>

theorem main_module_adds_no_edge:
  assumes "isEligible (cfg s) modulePath" and "cache s modulePath = Some dependency"
  shows "(map_option mod_id (mainModule s) = Some (mod_id caller) \<longrightarrow>
            Module_require isEligible caller modulePath xports s
            = (xports, s\<lparr>watched := insert (mod_filename dependency) (watched s)\<rparr>))
     \<and> (no_main_edge s
          \<and> (map_option mod_id (mainModule s) = Some (mod_id caller)
               \<or> map_option mod_filename (mainModule s) \<noteq> Some (mod_filename caller)) \<longrightarrow>
            no_main_edge (snd (Module_require isEligible caller modulePath xports s)))"
proof (intro conjI impI)
  assume "map_option mod_id (mainModule s) = Some (mod_id caller)"
  then show "Module_require isEligible caller modulePath xports s
            = (xports, s\<lparr>watched := insert (mod_filename dependency) (watched s)\<rparr>)"
    using assms by (simp add: Module_require_def)
next
  assume a: "no_main_edge s
          \<and> (map_option mod_id (mainModule s) = Some (mod_id caller)
               \<or> map_option mod_filename (mainModule s) \<noteq> Some (mod_filename caller))"
  show "no_main_edge (snd (Module_require isEligible caller modulePath xports s))"
  proof (cases "map_option mod_id (mainModule s) = Some (mod_id caller)")
    case True
    then show ?thesis using assms a
      by (auto simp: Module_require_def no_main_edge_def split: option.splits)
  next
    case False
    then have "map_option mod_filename (mainModule s) \<noteq> Some (mod_filename caller)" using a by blast
    then show ?thesis using assms a False
      by (auto simp: Module_require_def no_main_edge_def list_all_iff addDependency_set
          split: option.splits)
  qed
qed

theorem main_module_adds_no_edge_witness:
  "example_isEligible (cfg main_again_example) ''/app/b.js''
   \<and> cache main_again_example ''/app/b.js'' = Some (example_module 2 ''/app/b.js'')
   \<and> map_option mod_id (mainModule main_again_example) = Some (mod_id (example_module 1 ''/app/main.js''))
   \<and> no_main_edge main_again_example
   \<and> Module_require example_isEligible (example_module 1 ''/app/main.js'') ''/app/b.js'' JUndefined
        main_again_example
      = (JUndefined, main_again_example\<lparr>watched := insert ''/app/b.js'' (watched main_again_example)\<rparr>)
   \<and> graph (snd (Module_require example_isEligible (example_module 1 ''/app/main.js'') ''/app/b.js''
        JUndefined main_again_example)) = []
   \<and> no_main_edge (snd (Module_require example_isEligible (example_module 1 ''/app/main.js'') ''/app/b.js''
        JUndefined main_again_example))"
  using main_module_adds_no_edge [of example_isEligible main_again_example "''/app/b.js''"
          "example_module 2 ''/app/b.js''" "example_module 1 ''/app/main.js''" JUndefined]
  by (simp add: main_again_example_def loader_cache_def initial_state_def default_cfg_def
      example_isEligible_def example_module_def no_main_edge_def)

text \<open>
  A module object other than \<open>process.mainModule\<close> that carries the main module's
  file name requires \<open>/app/b.js\<close>: the hook records an edge whose dependent is the
  main module's file.
\<close>

theorem main_module_edge_counterexample:
  "map_option mod_filename (mainModule main_again_example) = Some ''/app/main.js''
   \<and> map_option mod_id (mainModule main_again_example) \<noteq> Some (mod_id (example_module 7 ''/app/main.js''))
   \<and> no_main_edge main_again_example
   \<and> graph (snd (Module_require example_isEligible (example_module 7 ''/app/main.js'') ''/app/b.js''
        JUndefined main_again_example)) = [(''/app/main.js'', ''/app/b.js'')]
   \<and> \<not> no_main_edge (snd (Module_require example_isEligible (example_module 7 ''/app/main.js'')
        ''/app/b.js'' JUndefined main_again_example))"
  by (simp add: main_again_example_def loader_cache_def initial_state_def default_cfg_def
      example_isEligible_def example_module_def no_main_edge_def Module_require_def
      addDependency_def)

subsection \<open>The stash\<close>

text \<open>
  Claim C6. \<open>restore\<close> invokes the callback with the stash and then clears the stash
  exactly when the entry has one; without a stash nothing happens. After a \<open>restore\<close>
  the stash is gone, so a second \<open>restore\<close>, with any callback, invokes nothing and
  changes nothing. What a \<open>store\<close> callback wrote at the reload is what the next
  \<open>restore\<close> delivers.
\<close>

theorem restore_at_most_once:
  "(stash entry = None \<longrightarrow> hot_restore stasher (u, entry) = (u, entry))
   \<and> (\<forall>st. stash entry = Some st \<longrightarrow>
          hot_restore stasher (u, entry) = (stasher st u, entry\<lparr>stash := None\<rparr>))
   \<and> stash (snd (hot_restore stasher (u, entry))) = None
   \<and> hot_restore stasher' (hot_restore stasher (u, entry)) = hot_restore stasher (u, entry)
   \<and> hot_restore stasher (u, run_store (hot_store filler entry))
       = (stasher (filler []) u, (hot_store filler entry)\<lparr>stash := None\<rparr>)"
  by (simp add: hot_restore_def run_store_def hot_store_def split: option.splits)

theorem restore_at_most_once_witness:
  "stash stashed_example = Some [(''count'', JNum 3)]
   \<and> hot_restore (\<lambda>st log. log @ [st]) ([], stashed_example)
       = ([[(''count'', JNum 3)]], stashed_example\<lparr>stash := None\<rparr>)
   \<and> hot_restore (\<lambda>st log. log @ [st]) (hot_restore (\<lambda>st log. log @ [st]) ([], stashed_example))
       = ([[(''count'', JNum 3)]], stashed_example\<lparr>stash := None\<rparr>)
   \<and> stash (new_entry 1 ''/app/a.js'') = None
   \<and> hot_restore (\<lambda>st log. log @ [st]) ([], new_entry 1 ''/app/a.js'') = ([], new_entry 1 ''/app/a.js'')"
  using restore_at_most_once [of stashed_example "\<lambda>st log. log @ [st]" "[]" "\<lambda>st log. log @ [st]" id]
    restore_at_most_once [of "new_entry 1 ''/app/a.js''" "\<lambda>st log. log @ [st]" "[]" "\<lambda>st log. log @ [st]" id]
  by (auto simp: stashed_example_def new_entry_def)

subsection \<open>The class identity patcher\<close>

lemma assign_self [simp]: "assign t t flt = t"
  by (auto simp: assign_def fun_eq_iff split: option.splits)

lemma assign_constructor_name [simp]:
  "ctor_name (ctors (assign_constructor t s flt h) x) = ctor_name (ctors h x)"
  by (simp add: assign_constructor_def Let_def)

lemma assign_constructor_writable [simp]:
  "proto_writable (ctors (assign_constructor t s flt h) x) = proto_writable (ctors h x)"
  by (simp add: assign_constructor_def Let_def)

lemma assign_constructor_protos [simp]: "protos (assign_constructor t s flt h) = protos h"
  by (simp add: assign_constructor_def Let_def)

lemma assign_constructor_prototype:
  "prototype (ctors (assign_constructor t s flt h) x)
   = (if x = t \<and> proto_writable (ctors h s) \<and> proto_writable (ctors h t) \<and> flt ''object''
      then prototype (ctors h s) else prototype (ctors h x))"
  by (simp add: assign_constructor_def Let_def)

lemma assign_members_ctors [simp]: "ctors (assign_members t s flt h) = ctors h"
  by (simp add: assign_members_def)

lemma setPrototypeOf_ctors [simp]: "ctors (setPrototypeOf p d h) = ctors h"
  by (simp add: setPrototypeOf_def)

lemma patch_old_name [simp]: "ctor_name (ctors (patch_old c old h) x) = ctor_name (ctors h x)"
  by (simp add: patch_old_def Let_def)

text \<open>
  Step (a) of the loop body replaces \<open>current.prototype\<close> by \<open>old.prototype\<close> when the
  property is writable on both; no other prototype reference changes.
\<close>

lemma patch_old_prototype:
  "prototype (ctors (patch_old c old h) x)
   = (if x = c \<and> proto_writable (ctors h old) \<and> proto_writable (ctors h c)
      then prototype (ctors h old) else prototype (ctors h x))"
  by (simp add: patch_old_def Let_def assign_constructor_prototype)

lemma patch_old_prototype_old [simp]:
  "prototype (ctors (patch_old c old h) old) = prototype (ctors h old)"
  by (simp add: patch_old_prototype)

lemma patch_old_statics_current:
  "statics (ctors (patch_old c old h) c)
   = assign (statics (ctors h c)) (statics (ctors h old)) (\<lambda>type. type \<noteq> ''function'')"
  by (simp add: patch_old_def Let_def assign_constructor_def)

lemma patch_old_statics_old:
  "statics (ctors (patch_old c old h) old)
   = assign (statics (ctors h old)) (statics (ctors (patch_old c old h) c)) (\<lambda>type. type = ''function'')"
  by (simp add: patch_old_def Let_def assign_constructor_def)

text \<open>
  Steps (c) and (d) copy from the prototype \<open>current\<close> has once step (a) is done.
\<close>

lemma patch_old_members:
  "members (protos (patch_old c old h) (prototype (ctors h old)))
   = assign (members (protos h (prototype (ctors h old))))
       (members (protos h (prototype (ctors (patch_old c old h) c))))
       (\<lambda>type. type = ''function'')"
  by (simp add: patch_old_def Let_def assign_constructor_prototype assign_members_def
      setPrototypeOf_def)

lemma patch_old_delegate:
  "delegate (protos (patch_old c old h) (prototype (ctors h old)))
   = delegate (protos h (prototype (ctors (patch_old c old h) c)))"
  by (simp add: patch_old_def Let_def assign_constructor_prototype assign_members_def
      setPrototypeOf_def)

text \<open>
  For two constructors with a writable \<open>prototype\<close>, steps (c) and (d) work on one and
  the same object and leave every prototype object as it was.
\<close>

lemma patch_old_protos_writable:
  assumes "proto_writable (ctors h old)" and "proto_writable (ctors h c)"
  shows "protos (patch_old c old h) = protos h"
  using assms
  by (simp add: patch_old_def Let_def assign_constructor_prototype assign_members_def
      setPrototypeOf_def)

lemma history_of_patch_ctor:
  "history_of (fst (patch_ctor c (e, h))) nm
   = (if nm = ctor_name (ctors h c) then history_of e nm @ [c] else history_of e nm)"
  by (simp add: patch_ctor_def history_of_def Let_def AList.update_conv')

lemma history_grows:
  "\<exists>ys. history_of (fst (hot_patch cs eh)) nm = history_of (fst eh) nm @ ys"
  unfolding hot_patch_def
proof (induction cs arbitrary: eh)
  case Nil
  show ?case by simp
next
  case (Cons c cs)
  obtain e h where eh: "eh = (e, h)" by (cases eh)
  obtain ys where "history_of (fst (fold patch_ctor cs (patch_ctor c eh))) nm
      = history_of (fst (patch_ctor c eh)) nm @ ys" using Cons.IH by blast
  then show ?case using history_of_patch_ctor[of c e h nm] eh by auto
qed


text \<open>
  What \<open>patch\<close> does for every input. It treats its arguments in order. For a
  constructor C, with the history recorded under C's name (empty when there was none):
  afterwards the entry holds that history with C appended, the histories of other names
  are as before, and the heap is the result of running the loop body for every
  constructor of the history, oldest first. The loop body, for one \<open>Old\<close>: (a) every
  non-callable static field of \<open>Old\<close> is then a static field of C with the same value,
  and C's \<open>prototype\<close> is \<open>Old\<close>'s when the property is writable on both, its own
  otherwise; (b) every callable static field C has at that point is a static field of
  \<open>Old\<close>; (c) every callable member of the prototype C has at that point is a member
  of \<open>Old\<close>'s prototype; (d) \<open>Old\<close>'s prototype delegates to what that prototype
  delegated to. Every history is extended at its end only.
\<close>

lemma patch_steps:
  "hot_patch [] eh = eh
   \<and> hot_patch (c # cs) eh = hot_patch cs (patch_ctor c eh)
   \<and> map_of (patchees (fst (patch_ctor c (e, h)))) (ctor_name (ctors h c))
       = Some (history_of e (ctor_name (ctors h c)) @ [c])
   \<and> (\<forall>nm. nm \<noteq> ctor_name (ctors h c) \<longrightarrow>
          history_of (fst (patch_ctor c (e, h))) nm = history_of e nm)
   \<and> snd (patch_ctor c (e, h)) = fold (patch_old c) (history_of e (ctor_name (ctors h c))) h
   \<and> (\<forall>key v. statics (ctors h old) key = Some v \<and> typeof v \<noteq> ''function'' \<longrightarrow>
          statics (ctors (patch_old c old h) c) key = Some v)
   \<and> prototype (ctors (patch_old c old h) c)
       = (if proto_writable (ctors h old) \<and> proto_writable (ctors h c)
          then prototype (ctors h old) else prototype (ctors h c))
   \<and> (\<forall>key v. statics (ctors (patch_old c old h) c) key = Some v \<and> typeof v = ''function'' \<longrightarrow>
          statics (ctors (patch_old c old h) old) key = Some v)
   \<and> (\<forall>key v. members (protos h (prototype (ctors (patch_old c old h) c))) key = Some v
               \<and> typeof v = ''function'' \<longrightarrow>
          members (protos (patch_old c old h) (prototype (ctors h old))) key = Some v)
   \<and> delegate (protos (patch_old c old h) (prototype (ctors h old)))
       = delegate (protos h (prototype (ctors (patch_old c old h) c)))
   \<and> (\<forall>nm. \<exists>ys. history_of (fst (hot_patch cs eh)) nm = history_of (fst eh) nm @ ys)"
proof (intro conjI allI impI)
  show "hot_patch [] eh = eh" by (simp add: hot_patch_def)
  show "hot_patch (c # cs) eh = hot_patch cs (patch_ctor c eh)" by (simp add: hot_patch_def)
  show "map_of (patchees (fst (patch_ctor c (e, h)))) (ctor_name (ctors h c))
       = Some (history_of e (ctor_name (ctors h c)) @ [c])"
    by (simp add: patch_ctor_def Let_def AList.update_conv')
  show "history_of (fst (patch_ctor c (e, h))) nm = history_of e nm"
    if "nm \<noteq> ctor_name (ctors h c)" for nm
    using that by (simp add: history_of_patch_ctor)
  show "snd (patch_ctor c (e, h)) = fold (patch_old c) (history_of e (ctor_name (ctors h c))) h"
    by (simp add: patch_ctor_def Let_def)
  show "statics (ctors (patch_old c old h) c) key = Some v"
    if "statics (ctors h old) key = Some v \<and> typeof v \<noteq> ''function''" for key v
    using that by (simp add: patch_old_statics_current assign_def)
  show "prototype (ctors (patch_old c old h) c)
       = (if proto_writable (ctors h old) \<and> proto_writable (ctors h c)
          then prototype (ctors h old) else prototype (ctors h c))"
    by (simp add: patch_old_prototype)
  show "statics (ctors (patch_old c old h) old) key = Some v"
    if "statics (ctors (patch_old c old h) c) key = Some v \<and> typeof v = ''function''" for key v
    using that by (subst patch_old_statics_old) (simp add: assign_def)
  show "members (protos (patch_old c old h) (prototype (ctors h old))) key = Some v"
    if "members (protos h (prototype (ctors (patch_old c old h) c))) key = Some v
        \<and> typeof v = ''function''" for key v
    using that by (simp add: patch_old_members assign_def)
  show "delegate (protos (patch_old c old h) (prototype (ctors h old)))
       = delegate (protos h (prototype (ctors (patch_old c old h) c)))"
    by (rule patch_old_delegate)
  show "\<exists>ys. history_of (fst (hot_patch cs eh)) nm = history_of (fst eh) nm @ ys" for nm
    by (rule history_grows)
qed

text \<open>
  Two classes named \<open>Widget\<close>, patched: the old identity runs the new code, the new
  identity has the old static state, and both identities remain.
\<close>

lemma widget_patch:
  "history_of (fst (hot_patch [2] (widget_entry, widget_heap))) ''Widget'' = [1, 2]"
  "statics (ctors (snd (hot_patch [2] (widget_entry, widget_heap))) 2) ''count'' = Some (JNum 5)"
  "statics (ctors (snd (hot_patch [2] (widget_entry, widget_heap))) 2) ''create'' = Some (JFunction 102)"
  "statics (ctors (snd (hot_patch [2] (widget_entry, widget_heap))) 1) ''create'' = Some (JFunction 102)"
  "statics (ctors (snd (hot_patch [2] (widget_entry, widget_heap))) 1) ''count'' = Some (JNum 5)"
  "prototype (ctors (snd (hot_patch [2] (widget_entry, widget_heap))) 2) = 12"
  "members (protos (snd (hot_patch [2] (widget_entry, widget_heap))) 11) ''render'' = Some (JFunction 202)"
  "members (protos (snd (hot_patch [2] (widget_entry, widget_heap))) 11) ''title'' = Some (JStr ''old'')"
  "delegate (protos (snd (hot_patch [2] (widget_entry, widget_heap))) 11) = Some 21"
  by (simp_all add: hot_patch_def patch_ctor_def history_of_def widget_entry_def widget_heap_def
      new_entry_def patch_old_def assign_constructor_def assign_members_def setPrototypeOf_def
      assign_def Let_def)

text \<open>
  Claim C5. The claim describes what the comments of \<open>hot.patch\<close> announce (static
  state into current, static methods into old, regular methods into old, prototype into
  old), and the program does not do it for constructors written as functions. Take the
  two functions named \<open>Widget\<close>, the old one in the history, and
  \<open>patch\<close> the new one. Before the call the prototype of the new \<open>Widget\<close> is
  object 12, whose callable member \<open>render\<close> is 302 and which delegates to 21. The
  claim has \<open>render\<close> 302 copied onto the old prototype 11 and 11 re-pointed to 21.
  After the call the history is the old one with the new \<open>Widget\<close> appended and the
  static state of the old one is on the new one, as the claim says; but step (a) has
  also copied the \<open>prototype\<close> property, the new \<open>Widget\<close> now has the old
  prototype 11, and steps (c) and (d) have copied 11 onto itself: \<open>render\<close> of 11 is
  still 301 and 11 still delegates to 20.
\<close>

theorem patch_function_constructors_lose_methods:
  "history_of function_widget_entry ''Widget'' = [1]
   \<and> ctor_name (ctors function_widget_heap 2) = ''Widget''
   \<and> prototype (ctors function_widget_heap 1) = 11
   \<and> prototype (ctors function_widget_heap 2) = 12
   \<and> members (protos function_widget_heap 12) ''render'' = Some (JFunction 302)
   \<and> delegate (protos function_widget_heap 12) = Some 21
   \<and> history_of (fst (hot_patch [2] (function_widget_entry, function_widget_heap))) ''Widget''
       = [1, 2]
   \<and> statics (ctors (snd (hot_patch [2] (function_widget_entry, function_widget_heap))) 2)
         ''count'' = Some (JNum 5)
   \<and> prototype (ctors (snd (hot_patch [2] (function_widget_entry, function_widget_heap))) 2)
       = 11
   \<and> members (protos (snd (hot_patch [2] (function_widget_entry, function_widget_heap))) 11)
         ''render'' = Some (JFunction 301)
   \<and> members (protos (snd (hot_patch [2] (function_widget_entry, function_widget_heap))) 11)
         ''render'' \<noteq> Some (JFunction 302)
   \<and> delegate (protos (snd (hot_patch [2] (function_widget_entry, function_widget_heap))) 11)
       = Some 20"
  by (simp add: hot_patch_def patch_ctor_def history_of_def function_widget_entry_def
      function_widget_heap_def new_entry_def patch_old_def assign_constructor_def
      assign_members_def setPrototypeOf_def assign_def Let_def)

lemma patch_ctor_accepted [simp]: "accepted (fst (patch_ctor c eh)) = accepted (fst eh)"
  by (simp add: patch_ctor_def Let_def)

lemma hot_patch_accepted [simp]: "accepted (fst (hot_patch cs eh)) = accepted (fst eh)"
  unfolding hot_patch_def by (induction cs arbitrary: eh) simp_all

lemma patch_value_accepted [simp]: "accepted (fst (patch_value v eh)) = accepted (fst eh)"
  by (cases v) simp_all

lemma patchExports_accepted [simp]: "accepted (fst (patchExports ctor_like m eh)) = accepted (fst eh)"
proof -
  have "accepted (fst (fold (\<lambda>key eh'. let xport = get_prop (exports m) key
                            in if isConstructorLike ctor_like xport then patch_value xport eh'
                               else eh') ks eh)) = accepted (fst eh)" for ks
    by (induction ks arbitrary: eh) (simp_all add: Let_def)
  then show ?thesis by (simp add: patchExports_def)
qed

lemma registerFile_accepted:
  "accepted_at (registry s) k = Some True \<Longrightarrow> accepted_at (registry (snd (registerFile m f s))) k = Some True"
  by (auto simp: registerFile_def accepted_at_def Let_def map_add_def split: option.splits)

lemma injectFile_accepted:
  "accepted_at (registry s) k = Some True \<Longrightarrow> accepted_at (registry (snd (injectFile m f s))) k = Some True"
  using registerFile_accepted[of s k m f]
  by (auto simp: injectFile_def Let_def split: option.splits prod.splits)

lemma Module_require_registry [simp]: "registry (snd (Module_require isEligible m path x s)) = registry s"
  by (simp add: Module_require_def Let_def split: option.splits)

subsection \<open>The accepted flag\<close>

text \<open>
  Claim C7. \<open>accept\<close> sets the flag and is idempotent. An entry that is accepted is
  still accepted after \<open>accept\<close>, \<open>store\<close>, \<open>restore\<close>, \<open>patch\<close>,
  \<open>patchExports\<close> and the run of its store callback; an entry accepted in the registry
  is still accepted there after \<open>registerFile\<close>, \<open>injectFile\<close>, \<open>configure\<close> and
  the require hook; and a reload for a change event returns with every flag of the
  registry as it was.
\<close>

theorem accepted_never_reset:
  "accepted (hot_accept entry)
   \<and> hot_accept (hot_accept entry) = hot_accept entry
   \<and> (accepted entry \<longrightarrow>
         accepted (hot_accept entry)
       \<and> accepted (hot_store stasher entry)
       \<and> accepted (snd (hot_restore restorer (u, entry)))
       \<and> accepted (fst (hot_patch constructors (entry, h)))
       \<and> accepted (fst (patchExports ctor_like m (entry, h)))
       \<and> accepted (run_store entry))
   \<and> (accepted_at (registry s) k = Some True \<longrightarrow>
         accepted_at (registry (snd (registerFile m f s))) k = Some True
       \<and> accepted_at (registry (snd (injectFile m f s))) k = Some True
       \<and> accepted_at (registry (configure opts s)) k = Some True
       \<and> accepted_at (registry (snd (Module_require isEligible m path x s))) k = Some True)
   \<and> (registry_ok (registry s) \<and> map_of (registry s) changed_file = Some changed
       \<and> length (registry s) < n \<longrightarrow>
         (\<exists>r. reload n changed (fresh_run s) = Some r
            \<and> accepted_at (registry (world r)) = accepted_at (registry s)))"
proof (intro conjI impI)
  show "accepted (hot_accept entry)" "accepted (hot_accept entry)"
    by (simp_all add: hot_accept_def)
  show "hot_accept (hot_accept entry) = hot_accept entry" by (simp add: hot_accept_def)
  assume "accepted entry"
  then show "accepted (hot_store stasher entry)" by (simp add: hot_store_def)
  show "accepted (snd (hot_restore restorer (u, entry)))"
    using \<open>accepted entry\<close> by (simp add: hot_restore_def split: option.splits)
  show "accepted (fst (hot_patch constructors (entry, h)))" using \<open>accepted entry\<close> by simp
  show "accepted (fst (patchExports ctor_like m (entry, h)))" using \<open>accepted entry\<close> by simp
  show "accepted (run_store entry)" using \<open>accepted entry\<close> by simp
next
  assume a: "accepted_at (registry s) k = Some True"
  show "accepted_at (registry (snd (registerFile m f s))) k = Some True"
    using a by (rule registerFile_accepted)
  show "accepted_at (registry (snd (injectFile m f s))) k = Some True"
    using a by (rule injectFile_accepted)
  show "accepted_at (registry (configure opts s)) k = Some True"
    using a by (simp add: configure_def)
  show "accepted_at (registry (snd (Module_require isEligible m path x s))) k = Some True"
    using a by simp
next
  assume a: "registry_ok (registry s) \<and> map_of (registry s) changed_file = Some changed
       \<and> length (registry s) < n"
  let ?r = "fresh_run s"
  have f: "filename changed = changed_file" using registry_ok_lookup a by blast
  have w: "world ?r = s" "reloaded ?r = []" by (simp_all add: fresh_run_def)
  have c: "card (keys ?r - set (reloaded ?r)) \<le> n" using a fresh_run_fuel by blast
  from reload_total_aux(1)[of ?r changed n] a f w c
  obtain r where r: "reload n changed ?r = Some r" "run_post ?r r" by auto
  show "\<exists>r. reload n changed (fresh_run s) = Some r
            \<and> accepted_at (registry (world r)) = accepted_at (registry s)"
    using r(1) run_post_accepted[OF r(2)] w by auto
qed


theorem accepted_never_reset_witness:
  "accepted (hot_accept (new_entry 1 ''/app/a.js''))
   \<and> accepted (hot_store id (hot_accept (new_entry 1 ''/app/a.js'')))
   \<and> accepted (snd (hot_restore (\<lambda>st log. log @ [st]) ([], hot_accept (new_entry 1 ''/app/a.js''))))
   \<and> accepted (fst (hot_patch [2] (hot_accept (new_entry 1 ''/app/a.js''), widget_heap)))
   \<and> accepted (fst (patchExports (\<lambda>c. True) exports_example
         (hot_accept (new_entry 1 ''/app/a.js''), widget_heap)))
   \<and> accepted (run_store (hot_accept (new_entry 1 ''/app/a.js'')))
   \<and> accepted_at (registry accepted_example) ''/app/a.js'' = Some True
   \<and> accepted_at (registry (snd (registerFile exports_example ''/app/widget.js''
         accepted_example))) ''/app/a.js'' = Some True
   \<and> accepted_at (registry (snd (injectFile exports_example ''/app/widget.js''
         accepted_example))) ''/app/a.js'' = Some True
   \<and> accepted_at (registry (configure \<lparr>arg_silent = Some True, arg_patchExports = None,
         arg_exclude = None\<rparr> accepted_example)) ''/app/a.js'' = Some True
   \<and> registry_ok (registry accepted_example)
   \<and> map_of (registry accepted_example) ''/app/b.js'' = Some (new_entry 2 ''/app/b.js'')
   \<and> length (registry accepted_example) < 3
   \<and> (\<exists>r. reload 3 (new_entry 2 ''/app/b.js'') (fresh_run accepted_example) = Some r
          \<and> accepted_at (registry (world r)) ''/app/a.js'' = Some True)"
proof -
  note th = accepted_never_reset [where entry = "hot_accept (new_entry 1 ''/app/a.js'')"
      and stasher = id and restorer = "\<lambda>st log. log @ [st]" and u = "[]"
      and constructors = "[2]" and h = widget_heap and ctor_like = "\<lambda>c. True"
      and m = exports_example and s = accepted_example and k = "''/app/a.js''"
      and f = "''/app/widget.js''"
      and opts = "\<lparr>arg_silent = Some True, arg_patchExports = None, arg_exclude = None\<rparr>"
      and isEligible = example_isEligible and path = "''/app/c.js''" and x = JUndefined
      and changed_file = "''/app/b.js''" and changed = "new_entry 2 ''/app/b.js''" and n = 3]
  have acc: "accepted (hot_accept (new_entry 1 ''/app/a.js''))" by (simp add: hot_accept_def)
  have at: "accepted_at (registry accepted_example) ''/app/a.js'' = Some True"
    by (simp add: accepted_example_def accepted_at_def hot_accept_def)
  have pre: "registry_ok (registry accepted_example)"
    "map_of (registry accepted_example) ''/app/b.js'' = Some (new_entry 2 ''/app/b.js'')"
    "length (registry accepted_example) < 3"
    by (simp_all add: accepted_example_def registry_ok_def hot_accept_def new_entry_def)
  from th pre obtain r where r: "reload 3 (new_entry 2 ''/app/b.js'') (fresh_run accepted_example) = Some r"
    "accepted_at (registry (world r)) = accepted_at (registry accepted_example)" by blast
  then have "\<exists>r. reload 3 (new_entry 2 ''/app/b.js'') (fresh_run accepted_example) = Some r
          \<and> accepted_at (registry (world r)) ''/app/a.js'' = Some True" using at by simp
  then show ?thesis using th acc at pre by simp
qed


subsection \<open>Patching the exports\<close>

lemma fold_own_properties:
  assumes "distinct (map fst ps)" and "set qs \<subseteq> set ps"
  shows "fold (\<lambda>key. F (get_prop (JObject ps) key)) (map fst qs) eh = fold (\<lambda>kv. F (snd kv)) qs eh"
  using assms(2)
proof (induction qs arbitrary: eh)
  case Nil
  show ?case by simp
next
  case (Cons q qs)
  have "(fst q, snd q) \<in> set ps" using Cons.prems by simp
  then have "map_of ps (fst q) = Some (snd q)" using assms(1) by (rule map_of_is_SomeI[rotated])
  then show ?case using Cons by simp
qed

lemma fold_ctor_like_values:
  "fold (\<lambda>kv eh'. if isConstructorLike ctor_like (snd kv) then patch_value (snd kv) eh' else eh') ps eh
   = fold (\<lambda>c. hot_patch [c]) (ctor_like_values ctor_like ps) eh"
  by (induction ctor_like ps arbitrary: eh rule: ctor_like_values.induct) simp_all

lemma set_ctor_like_values:
  "c \<in> set (ctor_like_values ctor_like ps) \<longleftrightarrow> (\<exists>key. (key, JFunction c) \<in> set ps) \<and> ctor_like c"
  by (induction ctor_like ps rule: ctor_like_values.induct) auto

text \<open>
  Claim C8. For a module whose export value is a plain object (with its own property
  names distinct, as those of an object are), \<open>patchExports\<close> calls \<open>patch\<close> once
  for each own property value that is constructor-like, in property order, and for
  nothing else: the constructors passed are exactly the function objects among the
  property values that \<open>ctor_like\<close> holds of. When the export value itself is a
  function object it is passed to \<open>patch\<close> if it is constructor-like; any other export
  value leaves everything as it was.
\<close>

theorem patchExports_constructor_like_only:
  "(exports m = JObject ps \<and> distinct (map fst ps) \<longrightarrow>
       patchExports ctor_like m eh = fold (\<lambda>c. hot_patch [c]) (ctor_like_values ctor_like ps) eh)
   \<and> (\<forall>c. c \<in> set (ctor_like_values ctor_like ps)
            \<longleftrightarrow> (\<exists>key. (key, JFunction c) \<in> set ps) \<and> ctor_like c)
   \<and> (\<forall>c. exports m = JFunction c \<longrightarrow>
         patchExports ctor_like m eh = (if ctor_like c then hot_patch [c] eh else eh))
   \<and> (\<not> isPlainObject (exports m) \<and> \<not> isConstructorLike ctor_like (exports m) \<longrightarrow>
         patchExports ctor_like m eh = eh)"
proof (intro conjI impI allI)
  assume a: "exports m = JObject ps \<and> distinct (map fst ps)"
  have "patchExports ctor_like m eh
      = fold (\<lambda>key. (\<lambda>v eh'. if isConstructorLike ctor_like v then patch_value v eh' else eh')
                      (get_prop (JObject ps) key)) (map fst ps) eh"
    using a by (simp add: patchExports_def Let_def cong: if_cong)
  also have "\<dots> = fold (\<lambda>kv. (\<lambda>v eh'. if isConstructorLike ctor_like v then patch_value v eh' else eh')
                      (snd kv)) ps eh"
    using a by (intro fold_own_properties) simp_all
  also have "\<dots> = fold (\<lambda>c. hot_patch [c]) (ctor_like_values ctor_like ps) eh"
    by (rule fold_ctor_like_values)
  finally show "patchExports ctor_like m eh
      = fold (\<lambda>c. hot_patch [c]) (ctor_like_values ctor_like ps) eh" .
next
  fix c
  show "c \<in> set (ctor_like_values ctor_like ps)
            \<longleftrightarrow> (\<exists>key. (key, JFunction c) \<in> set ps) \<and> ctor_like c"
    by (rule set_ctor_like_values)
next
  fix c assume "exports m = JFunction c"
  then show "patchExports ctor_like m eh = (if ctor_like c then hot_patch [c] eh else eh)"
    by (simp add: patchExports_def)
next
  assume "\<not> isPlainObject (exports m) \<and> \<not> isConstructorLike ctor_like (exports m)"
  then show "patchExports ctor_like m eh = eh" by (simp add: patchExports_def)
qed

theorem patchExports_constructor_like_only_witness:
  "exports exports_example = JObject [(''Foo'', JFunction 2), (''bar'', JNum 42)]
   \<and> distinct (map fst [(''Foo'', JFunction 2), (''bar'', JNum 42 :: jsval)])
   \<and> ctor_like_values (\<lambda>c. True) [(''Foo'', JFunction 2), (''bar'', JNum 42)] = [2]
   \<and> patchExports (\<lambda>c. True) exports_example (widget_entry, widget_heap)
       = hot_patch [2] (widget_entry, widget_heap)"
  using patchExports_constructor_like_only [of exports_example
          "[(''Foo'', JFunction 2), (''bar'', JNum 42)]" "\<lambda>c. True" "(widget_entry, widget_heap)"]
  by (simp add: exports_example_def example_module_def)

end
